theory Spec2Isabelle
  imports Main "HOL-Library.Sublist"
begin

section \<open>The document model\<close>

text \<open>
  \<^verbatim>\<open>DocXEditor.py\<close> edits the main part \<^verbatim>\<open>word/document.xml\<close> of a .docx archive, once
  through lxml (\<^verbatim>\<open>modify_text_in_doc\<close>) and once through python-docx
  (\<^verbatim>\<open>add_comment_to_paragraph\<close>). Both see the same XML, so one typed tree serves both:

  \<^item> a run \<^verbatim>\<open>w:r\<close> has its run properties \<^verbatim>\<open>w:rPr\<close> (the character style \<^verbatim>\<open>w:rStyle\<close>,
    which python-docx reads and writes as \<^verbatim>\<open>run.style\<close>, and the remaining direct
    formatting, kept opaque) and its other children in order: text \<^verbatim>\<open>w:t\<close>, deleted text
    \<^verbatim>\<open>w:delText\<close>, a tab \<^verbatim>\<open>w:tab\<close>, a break \<^verbatim>\<open>w:br\<close>, a carriage return \<^verbatim>\<open>w:cr\<close>, or anything
    else (a drawing, a field);
  \<^item> a paragraph \<^verbatim>\<open>w:p\<close> has XML attributes, an optional properties child \<^verbatim>\<open>w:pPr\<close> and
    its other children in order: runs, and the revision containers \<^verbatim>\<open>w:ins\<close> and
    \<^verbatim>\<open>w:del\<close>, which hold runs and containers in turn;
  \<^item> the body is the list of its paragraphs in document order.

  Tables, text boxes (paragraphs nested in paragraphs) and text nodes outside a run are
  not part of the model. The revision attribute \<^verbatim>\<open>w:id\<close> is an \<open>int\<close>: the source writes it
  with \<^verbatim>\<open>str\<close> and reads it with \<^verbatim>\<open>int\<close>. Element tails and the difference between a
  missing and an empty text are dropped: the source tests \<^verbatim>\<open>not t.text\<close>, which is true of
  both. A character of a text is a code point below 256.
\<close>

datatype rchild = T string | DelText string | Tab | Br | Cr | Other string

record run =
  rStyle :: "string option"
  rFmt :: "string list"
  rKids :: "rchild list"

record rev =
  rid :: int
  rauthor :: string
  rdate :: string

datatype item = R run | Ins rev "item list" | Del rev "item list"

record para =
  pAttrs :: "(string \<times> string) list"
  pPr :: "string option"
  pKids :: "item list"

type_synonym document = "para list"

datatype error =
  ValueError | FileNotFoundError | PackageNotFoundError | AttributeError | OSError

text \<open>A run that \<^verbatim>\<open>etree.Element\<close> / \<^verbatim>\<open>etree.SubElement\<close> build from scratch: no
  \<^verbatim>\<open>w:rPr\<close>, the given children.\<close>

definition new_run :: "rchild list \<Rightarrow> run" where
  "new_run ks = \<lparr>rStyle = None, rFmt = [], rKids = ks\<rparr>"

section \<open>Strings: \<^verbatim>\<open>in\<close> and \<^verbatim>\<open>str.partition\<close>\<close>

text \<open>\<^verbatim>\<open>s.find(sep)\<close>: the index of the first occurrence of \<open>sep\<close> in \<open>s\<close>.\<close>

fun find_sub :: "string \<Rightarrow> string \<Rightarrow> nat option" where
  "find_sub sep [] = (if sep = [] then Some 0 else None)"
| "find_sub sep (c # cs) =
     (if prefix sep (c # cs) then Some 0 else map_option Suc (find_sub sep cs))"

text \<open>\<^verbatim>\<open>sep in s\<close>.\<close>

definition contains :: "string \<Rightarrow> string \<Rightarrow> bool" where
  "contains sep s = (find_sub sep s \<noteq> None)"

text \<open>\<^verbatim>\<open>s.partition(sep)\<close>: raises \<^verbatim>\<open>ValueError\<close> on an empty separator, splits at the
  first occurrence, and returns \<^verbatim>\<open>(s, '', '')\<close> when there is none.\<close>

definition partition_str :: "string \<Rightarrow> string \<Rightarrow> error + (string \<times> string \<times> string)" where
  "partition_str s sep =
     (if sep = [] then Inl ValueError
      else case find_sub sep s of
             None \<Rightarrow> Inr (s, [], [])
           | Some i \<Rightarrow> Inr (take i s, sep, drop (i + length sep) s))"

section \<open>The clock: \<^verbatim>\<open>datetime.utcnow().isoformat()\<close>\<close>

text \<open>
  The clock is the environment's: \<open>now k\<close> is what the \<open>k\<close>-th call of
  \<^verbatim>\<open>datetime.utcnow()\<close> returns, and the session counts the calls made. \<^verbatim>\<open>isoformat\<close>
  prints \<^verbatim>\<open>YYYY-MM-DDTHH:MM:SS\<close>, followed by \<^verbatim>\<open>.ffffff\<close> when the microseconds are not zero.
\<close>

record datetime =
  year :: nat
  month :: nat
  day :: nat
  hour :: nat
  minute :: nat
  second :: nat
  microsecond :: nat

definition digit :: "nat \<Rightarrow> char" where
  "digit n = ''0123456789'' ! (n mod 10)"

fun pad :: "nat \<Rightarrow> nat \<Rightarrow> string" where
  "pad 0 n = []"
| "pad (Suc w) n = pad w (n div 10) @ [digit n]"

definition isoformat :: "datetime \<Rightarrow> string" where
  "isoformat d =
     pad 4 (year d) @ ''-'' @ pad 2 (month d) @ ''-'' @ pad 2 (day d) @ ''T'' @
     pad 2 (hour d) @ '':'' @ pad 2 (minute d) @ '':'' @ pad 2 (second d) @
     (if microsecond d = 0 then [] else ''.'' @ pad 6 (microsecond d))"

text \<open>The shape of such a string: an ISO 8601 date and time of day without a zone.\<close>

definition is_digit :: "char \<Rightarrow> bool" where
  "is_digit c \<longleftrightarrow> c \<in> set ''0123456789''"

definition iso_shaped :: "string \<Rightarrow> bool" where
  "iso_shaped s \<longleftrightarrow>
     (length s = 19 \<or> length s = 26 \<and> s ! 19 = CHR ''.'' \<and> list_all is_digit (drop 20 s)) \<and>
     list_all is_digit (take 4 s) \<and> s ! 4 = CHR ''-'' \<and>
     list_all is_digit (take 2 (drop 5 s)) \<and> s ! 7 = CHR ''-'' \<and>
     list_all is_digit (take 2 (drop 8 s)) \<and> s ! 10 = CHR ''T'' \<and>
     list_all is_digit (take 2 (drop 11 s)) \<and> s ! 13 = CHR '':'' \<and>
     list_all is_digit (take 2 (drop 14 s)) \<and> s ! 16 = CHR '':'' \<and>
     list_all is_digit (take 2 (drop 17 s))"

section \<open>\<^verbatim>\<open>modify_text_in_doc\<close>\<close>

text \<open>
  The arguments of one call that the loops only read: the clock, \<^verbatim>\<open>old_text\<close>,
  \<^verbatim>\<open>new_text\<close> and \<^verbatim>\<open>author\<close>.
\<close>

record call =
  now :: "nat \<Rightarrow> datetime"
  old_text :: string
  new_text :: string
  author :: string

text \<open>
  The inner loop \<^verbatim>\<open>for t in para.xpath(".//w:t")\<close> skips a text node when
  \<^verbatim>\<open>not t.text or old_text not in t.text\<close>. \<open>first_t\<close> is the index, among the children of
  one run, of the first text node that is not skipped.
\<close>

fun first_t :: "string \<Rightarrow> rchild list \<Rightarrow> nat option" where
  "first_t old [] = None"
| "first_t old (T s # ks) =
     (if s \<noteq> [] \<and> contains old s then Some 0 else map_option Suc (first_t old ks))"
| "first_t old (k # ks) = map_option Suc (first_t old ks)"

definition t_text :: "rchild \<Rightarrow> string" where
  "t_text k = (case k of T s \<Rightarrow> s | _ \<Rightarrow> [])"

text \<open>
  The body of the loop from \<^verbatim>\<open>t.text.partition(old_text)\<close> to the trailing text, for the
  text node with index \<open>k\<close> of the run \<open>r\<close>, with change id \<open>cid\<close> and \<open>clk\<close> clock readings
  made so far. The result is what stands in the parent \<open>p\<close> in place of the run:
  the run with \<^verbatim>\<open>t.text = before\<close> when \<^verbatim>\<open>before\<close> (here \<open>bef\<close>) is not empty (otherwise
  the run is removed), the \<^verbatim>\<open>w:del\<close> element, the \<^verbatim>\<open>w:ins\<close> element, and a new run with
  \<^verbatim>\<open>after\<close> (here \<open>aft\<close>) when that is not empty. \<^verbatim>\<open>partition\<close> raises on an empty \<open>old_text\<close>.
\<close>

definition edit_run :: "call \<Rightarrow> int \<Rightarrow> nat \<Rightarrow> run \<Rightarrow> nat \<Rightarrow> error + item list" where
  "edit_run P cid clk r k =
     (case partition_str (t_text (rKids r ! k)) (old_text P) of
        Inl e \<Rightarrow> Inl e
      | Inr (bef, _, aft) \<Rightarrow>
          Inr ((if bef \<noteq> [] then [R (r\<lparr>rKids := (rKids r)[k := T bef]\<rparr>)] else []) @
               [Del \<lparr>rid = cid, rauthor = author P, rdate = isoformat (now P clk)\<rparr>
                    [R (new_run [DelText (old_text P)])],
                Ins \<lparr>rid = cid, rauthor = author P, rdate = isoformat (now P (clk + 1))\<rparr>
                    [R (new_run [T (CHR '' '' # new_text P)])]] @
               (if aft \<noteq> [] then [R (new_run [T aft])] else [])))"

text \<open>
  The text nodes below a paragraph in document order, up to the first one that is not
  skipped; \<^verbatim>\<open>p = parent_run.getparent()\<close> is the paragraph or the revision container that
  holds the run, and the edit changes the children of \<open>p\<close>. \<open>Inr None\<close>: every text node
  was skipped.
\<close>

fun subst_items :: "call \<Rightarrow> int \<Rightarrow> nat \<Rightarrow> item list \<Rightarrow> error + item list option" where
  "subst_items P cid clk [] = Inr None"
| "subst_items P cid clk (R r # is) =
     (case first_t (old_text P) (rKids r) of
        Some k \<Rightarrow>
          (case edit_run P cid clk r k of
             Inl e \<Rightarrow> Inl e
           | Inr js \<Rightarrow> Inr (Some (js @ is)))
      | None \<Rightarrow>
          (case subst_items P cid clk is of
             Inl e \<Rightarrow> Inl e
           | Inr None \<Rightarrow> Inr None
           | Inr (Some is') \<Rightarrow> Inr (Some (R r # is'))))"
| "subst_items P cid clk (Ins v js # is) =
     (case subst_items P cid clk js of
        Inl e \<Rightarrow> Inl e
      | Inr (Some js') \<Rightarrow> Inr (Some (Ins v js' # is))
      | Inr None \<Rightarrow>
          (case subst_items P cid clk is of
             Inl e \<Rightarrow> Inl e
           | Inr None \<Rightarrow> Inr None
           | Inr (Some is') \<Rightarrow> Inr (Some (Ins v js # is'))))"
| "subst_items P cid clk (Del v js # is) =
     (case subst_items P cid clk js of
        Inl e \<Rightarrow> Inl e
      | Inr (Some js') \<Rightarrow> Inr (Some (Del v js' # is))
      | Inr None \<Rightarrow>
          (case subst_items P cid clk is of
             Inl e \<Rightarrow> Inl e
           | Inr None \<Rightarrow> Inr None
           | Inr (Some is') \<Rightarrow> Inr (Some (Del v js # is'))))"

text \<open>
  The outer loop \<^verbatim>\<open>for para in self.doc_tree.xpath("//w:p")\<close>. The \<^verbatim>\<open>break\<close> after an edit
  leaves the inner loop only, so the next paragraph is searched as well. Each edit takes
  one id from \<^verbatim>\<open>self._id_counter\<close> and reads the clock twice. The result is the exception
  raised, if any, the ids handed out in order, and the paragraphs, the counter and the
  clock as they are when the loop ends or the exception leaves it.
\<close>

fun modify_paras ::
  "call \<Rightarrow> int \<Rightarrow> nat \<Rightarrow> para list \<Rightarrow> error option \<times> int list \<times> para list \<times> int \<times> nat" where
  "modify_paras P c clk [] = (None, [], [], c, clk)"
| "modify_paras P c clk (p # ps) =
     (case subst_items P c clk (pKids p) of
        Inl e \<Rightarrow> (Some e, [], p # ps, c, clk)
      | Inr None \<Rightarrow>
          (case modify_paras P c clk ps of
             (e, ids, ps', c', clk') \<Rightarrow> (e, ids, p # ps', c', clk'))
      | Inr (Some js) \<Rightarrow>
          (case modify_paras P (c + 1) (clk + 2) ps of
             (e, ids, ps', c', clk') \<Rightarrow> (e, c # ids, p\<lparr>pKids := js\<rparr> # ps', c', clk')))"

section \<open>The session\<close>

text \<open>
  The fields of a \<^verbatim>\<open>DocXEditor\<close> object, and what it reads and writes outside itself: the
  .docx archives on disk (each by the content of its \<^verbatim>\<open>word/document.xml\<close>), the
  extracted copy of that part in \<^verbatim>\<open>self.temp_dir\<close>, the number of clock readings made,
  and the messages printed. \<^verbatim>\<open>self._id_counter\<close> is \<^verbatim>\<open>itertools.count(n)\<close>, held as the
  integer its next \<^verbatim>\<open>next\<close> returns.
\<close>

datatype message = Skipping_comment_empty | Text_not_found | Comment_added

datatype pyval = PyNone

record session =
  docx_path :: string
  output_path :: string
  files :: "string \<Rightarrow> document option"
  temp_dir :: "document option"
  id_counter :: int
  doc_tree :: document
  clock :: nat
  stdout :: "message list"

text \<open>
  \<^verbatim>\<open>modify_text_in_doc(old_text, new_text, full_paragraph_text, author)\<close>. The third
  argument is never read. The function has no \<^verbatim>\<open>return\<close>: it returns \<^verbatim>\<open>None\<close> or leaves by
  the exception of \<^verbatim>\<open>partition\<close>; the tree is edited in place, so the session holds what
  was done up to that point.
\<close>

definition modify_text_in_doc ::
  "(nat \<Rightarrow> datetime) \<Rightarrow> session \<Rightarrow> string \<Rightarrow> string \<Rightarrow> string \<Rightarrow> string \<Rightarrow>
     (error + pyval) \<times> int list \<times> session" where
  "modify_text_in_doc clk_now s old new full_paragraph_text auth =
     (case modify_paras \<lparr>now = clk_now, old_text = old, new_text = new, author = auth\<rparr>
             (id_counter s) (clock s) (doc_tree s) of
        (e, ids, ps, c, k) \<Rightarrow>
          ((case e of None \<Rightarrow> Inr PyNone | Some x \<Rightarrow> Inl x), ids,
           s\<lparr>doc_tree := ps, id_counter := c, clock := k\<rparr>))"

text \<open>\<^verbatim>\<open>get_full_text(para)\<close>: the texts of \<^verbatim>\<open>para.xpath(".//w:t")\<close>, joined.\<close>

fun item_texts :: "item \<Rightarrow> string list" where
  "item_texts (R r) = map t_text (filter (\<lambda>k. case k of T s \<Rightarrow> True | _ \<Rightarrow> False) (rKids r))"
| "item_texts (Ins v js) = concat (map item_texts js)"
| "item_texts (Del v js) = concat (map item_texts js)"

definition get_full_text :: "para \<Rightarrow> string" where
  "get_full_text p = concat (concat (map item_texts (pKids p)))"

text \<open>
  A paragraph is hit by a call when one of its text nodes is not skipped by the inner
  loop.
\<close>

definition has_match :: "string \<Rightarrow> para \<Rightarrow> bool" where
  "has_match old p =
     list_ex (\<lambda>s. s \<noteq> [] \<and> contains old s) (concat (map item_texts (pKids p)))"

text \<open>
  What one pass of the outer loop does to a paragraph, given the id and the clock it
  starts with, and the number of paragraphs of a list that are hit.
\<close>

definition modify_para :: "call \<Rightarrow> int \<Rightarrow> nat \<Rightarrow> para \<Rightarrow> para" where
  "modify_para P c clk p =
     (case subst_items P c clk (pKids p) of Inr (Some js) \<Rightarrow> p\<lparr>pKids := js\<rparr> | _ \<Rightarrow> p)"

definition hits :: "string \<Rightarrow> para list \<Rightarrow> nat" where
  "hits old ps = length (filter (has_match old) ps)"

text \<open>
  The place of a run below a paragraph. The run is a child of the paragraph, or of a
  \<^verbatim>\<open>w:ins\<close> or \<^verbatim>\<open>w:del\<close> that is a child of the paragraph or of another such container. A
  frame is one container on the way down with the siblings before and after it;
  \<open>plug C xs\<close> is the list of children of the paragraph when the innermost container (the
  paragraph itself when \<open>C\<close> is empty) has the children \<open>xs\<close>. \<open>no_hit\<close> says that the inner
  loop skips every text node below the items of a list, and \<open>frames_free\<close> that it does so
  for the siblings that stand before the containers of \<open>C\<close>.
\<close>

datatype wrap = InIns rev | InDel rev

fun wrap_item :: "wrap \<Rightarrow> item list \<Rightarrow> item" where
  "wrap_item (InIns v) js = Ins v js"
| "wrap_item (InDel v) js = Del v js"

type_synonym frame = "item list \<times> wrap \<times> item list"

fun plug :: "frame list \<Rightarrow> item list \<Rightarrow> item list" where
  "plug [] xs = xs"
| "plug ((pre, w, post) # C) xs = pre @ wrap_item w (plug C xs) # post"

definition no_hit :: "string \<Rightarrow> item list \<Rightarrow> bool" where
  "no_hit old xs \<longleftrightarrow>
     \<not> list_ex (\<lambda>s. s \<noteq> [] \<and> contains old s) (concat (map item_texts xs))"

definition frames_free :: "string \<Rightarrow> frame list \<Rightarrow> bool" where
  "frames_free old C \<longleftrightarrow> list_all (\<lambda>(pre, w, post). no_hit old pre) C"

section \<open>Change ids: \<^verbatim>\<open>_highest_existing_change_id\<close> and \<^verbatim>\<open>__init__\<close>\<close>

text \<open>The attribute values that \<^verbatim>\<open>//w:ins/@w:id | //w:del/@w:id\<close> selects, in document
  order.\<close>

fun item_ids :: "item \<Rightarrow> int list" where
  "item_ids (R r) = []"
| "item_ids (Ins v js) = rid v # concat (map item_ids js)"
| "item_ids (Del v js) = rid v # concat (map item_ids js)"

definition para_ids :: "para \<Rightarrow> int list" where
  "para_ids p = concat (map item_ids (pKids p))"

definition doc_ids :: "document \<Rightarrow> int list" where
  "doc_ids d = concat (map (\<lambda>p. concat (map item_ids (pKids p))) d)"

text \<open>\<^verbatim>\<open>max(xs, default=d)\<close>.\<close>

fun max_default :: "int list \<Rightarrow> int \<Rightarrow> int" where
  "max_default [] d = d"
| "max_default (x # xs) d = foldl max x xs"

text \<open>
  \<^verbatim>\<open>_load_xml("word/document.xml")\<close>: \<^verbatim>\<open>etree.parse\<close> of the file in the temporary
  directory. When the file is not there lxml raises \<^verbatim>\<open>OSError\<close>.
\<close>

definition load_xml :: "session \<Rightarrow> error + document" where
  "load_xml s = (case temp_dir s of None \<Rightarrow> Inl OSError | Some d \<Rightarrow> Inr d)"

text \<open>
  \<^verbatim>\<open>_highest_existing_change_id\<close> loads the file and returns the maximum of the ids, zero
  when there is none. Its \<^verbatim>\<open>except FileNotFoundError: return 0\<close> does not catch the
  \<^verbatim>\<open>OSError\<close> of lxml, so a missing file leaves the method by that exception.
\<close>

definition highest_existing_change_id :: "session \<Rightarrow> error + int" where
  "highest_existing_change_id s =
     (case load_xml s of Inl e \<Rightarrow> Inl e | Inr d \<Rightarrow> Inr (max_default (doc_ids d) 0))"

text \<open>\<^verbatim>\<open>_unzip\<close>: the archive at \<^verbatim>\<open>self.docx_path\<close> is extracted into the temporary directory;
  \<^verbatim>\<open>zipfile.ZipFile\<close> raises \<^verbatim>\<open>FileNotFoundError\<close> when there is no such file.\<close>

definition unzip :: "session \<Rightarrow> error + session" where
  "unzip s =
     (case files s (docx_path s) of
        None \<Rightarrow> Inl FileNotFoundError
      | Some d \<Rightarrow> Inr (s\<lparr>temp_dir := Some d\<rparr>))"

text \<open>
  The three steps that \<^verbatim>\<open>__init__\<close> and the end of \<^verbatim>\<open>add_comment_to_paragraph\<close> share:
  \<^verbatim>\<open>_unzip\<close>, a new counter \<^verbatim>\<open>count(self._highest_existing_change_id() + 1)\<close>, and
  \<^verbatim>\<open>self.doc_tree = self._load_xml(...)\<close>.
\<close>

definition reload :: "session \<Rightarrow> error + session" where
  "reload s =
     (case unzip s of
        Inl e \<Rightarrow> Inl e
      | Inr s1 \<Rightarrow>
          (case highest_existing_change_id s1 of
             Inl e \<Rightarrow> Inl e
           | Inr h \<Rightarrow>
               (let s2 = s1\<lparr>id_counter := h + 1\<rparr>
                in case load_xml s2 of
                     Inl e \<Rightarrow> Inl e
                   | Inr d \<Rightarrow> Inr (s2\<lparr>doc_tree := d\<rparr>))))"

text \<open>\<^verbatim>\<open>DocXEditor(docx_path, output_path)\<close>, on the disk \<open>fs\<close>.\<close>

definition init :: "(string \<Rightarrow> document option) \<Rightarrow> string \<Rightarrow> string \<Rightarrow> error + session" where
  "init fs dp outp =
     reload \<lparr>docx_path = dp, output_path = outp, files = fs, temp_dir = None,
             id_counter = 0, doc_tree = [], clock = 0, stdout = []\<rparr>"


section \<open>\<^verbatim>\<open>add_comment_to_paragraph\<close>\<close>

text \<open>
  This method works on a python-docx document. What it uses of that library:
  \<^item> \<^verbatim>\<open>doc.paragraphs\<close>: the paragraphs of the body; \<^verbatim>\<open>para.runs\<close>: the \<^verbatim>\<open>w:r\<close> children of the
    paragraph (runs inside \<^verbatim>\<open>w:ins\<close> or \<^verbatim>\<open>w:del\<close> are not among them);
  \<^item> \<^verbatim>\<open>run.text\<close>: the children of the run rendered and joined: a \<^verbatim>\<open>w:t\<close> gives its text, a
    \<^verbatim>\<open>w:tab\<close> a tab character, a \<^verbatim>\<open>w:br\<close> or \<^verbatim>\<open>w:cr\<close> a line feed, any other child nothing;
    \<^verbatim>\<open>para.text\<close>: the texts of \<^verbatim>\<open>para.runs\<close> joined;
  \<^item> \<^verbatim>\<open>run.text = s\<close>: every child but \<^verbatim>\<open>w:rPr\<close> is removed, then \<open>s\<close> is appended character by
    character: a tab adds a \<^verbatim>\<open>w:tab\<close>, a line feed or a carriage return adds a \<^verbatim>\<open>w:br\<close>, and
    the characters between them are collected into one \<^verbatim>\<open>w:t\<close> each;
  \<^item> \<^verbatim>\<open>para.add_run(s)\<close>: a new \<^verbatim>\<open>w:r\<close> without \<^verbatim>\<open>w:rPr\<close> is appended to the paragraph and its
    text is set when \<open>s\<close> is not empty;
  \<^item> \<^verbatim>\<open>run.style\<close>, read: the character style that the styles part defines under the id in
    \<^verbatim>\<open>w:rStyle\<close>; the default character style when the run has no \<^verbatim>\<open>w:rStyle\<close> or the id is
    not that of a character style. \<^verbatim>\<open>run.style = st\<close>: \<^verbatim>\<open>w:rStyle\<close> is set to the id of
    \<open>st\<close>, and removed when \<open>st\<close> is the default character style or \<^verbatim>\<open>None\<close>. No other
    child of \<^verbatim>\<open>w:rPr\<close> is touched;
  \<^item> \<^verbatim>\<open>a.addnext(b)\<close> (lxml): \<open>b\<close> is moved to stand right after \<open>a\<close>.
  The styles part of the archive is not changed by any method; it is a parameter: the
  ids of the character styles it defines and the id of the one marked as default, if any.
\<close>

record styles =
  char_styles :: "string list"
  default_char_style :: "string option"

text \<open>\<^verbatim>\<open>c.isspace()\<close>, for the code points below 256.\<close>

definition isspace :: "char \<Rightarrow> bool" where
  "isspace c \<longleftrightarrow>
     c \<in> set [CHR 0x09, CHR 0x0A, CHR 0x0B, CHR 0x0C, CHR 0x0D,
              CHR 0x1C, CHR 0x1D, CHR 0x1E, CHR 0x1F, CHR 0x20, CHR 0x85, CHR 0xA0]"

text \<open>\<^verbatim>\<open>s.strip()\<close>.\<close>

definition strip :: "string \<Rightarrow> string" where
  "strip s = rev (dropWhile isspace (rev (dropWhile isspace s)))"

definition render :: "rchild \<Rightarrow> string" where
  "render k =
     (case k of T s \<Rightarrow> s | Tab \<Rightarrow> [CHR 0x09] | Br \<Rightarrow> [CHR 0x0A] | Cr \<Rightarrow> [CHR 0x0A] | _ \<Rightarrow> [])"

text \<open>A text in which every carriage return has become a line feed: what \<^verbatim>\<open>run.text\<close> reads
  back after \<^verbatim>\<open>run.text = s\<close>.\<close>

definition crlf :: "string \<Rightarrow> string" where
  "crlf s = map (\<lambda>c. if c = CHR 0x0D then CHR 0x0A else c) s"

definition run_text :: "run \<Rightarrow> string" where
  "run_text r = concat (map render (rKids r))"

definition para_runs :: "para \<Rightarrow> run list" where
  "para_runs p = concat (map (\<lambda>i. case i of R r \<Rightarrow> [r] | _ \<Rightarrow> []) (pKids p))"

definition para_text :: "para \<Rightarrow> string" where
  "para_text p = concat (map run_text (para_runs p))"

text \<open>The library's appender of text to a run: \<open>bfr\<close> is its buffer of characters not yet
  written, and \<open>flush\<close> writes them as one \<^verbatim>\<open>w:t\<close> when there are any.\<close>

definition flush :: "string \<Rightarrow> rchild list" where
  "flush bfr = (if bfr = [] then [] else [T bfr])"

fun append_text :: "string \<Rightarrow> string \<Rightarrow> rchild list" where
  "append_text bfr [] = flush bfr"
| "append_text bfr (c # cs) =
     (if c = CHR 0x09 then flush bfr @ Tab # append_text [] cs
      else if c = CHR 0x0D \<or> c = CHR 0x0A then flush bfr @ Br # append_text [] cs
      else append_text (bfr @ [c]) cs)"

definition set_text :: "run \<Rightarrow> string \<Rightarrow> run" where
  "set_text r s = r\<lparr>rKids := append_text [] s\<rparr>"

definition add_run :: "string \<Rightarrow> run" where
  "add_run s = (if s \<noteq> [] then set_text (new_run []) s else new_run [])"

definition get_style :: "styles \<Rightarrow> run \<Rightarrow> string option" where
  "get_style sty r =
     (case rStyle r of
        None \<Rightarrow> default_char_style sty
      | Some i \<Rightarrow> if i \<in> set (char_styles sty) then Some i else default_char_style sty)"

definition set_style :: "styles \<Rightarrow> run \<Rightarrow> string option \<Rightarrow> run" where
  "set_style sty r st = r\<lparr>rStyle := (if st = default_char_style sty then None else st)\<rparr>"

text \<open>
  \<^verbatim>\<open>for i, run in enumerate(para.runs): if target_text in run.text: ...; break\<close>. The run
  found is named here by its index among all children of the paragraph.
\<close>

fun find_run :: "string \<Rightarrow> item list \<Rightarrow> nat option" where
  "find_run target [] = None"
| "find_run target (R r # is) =
     (if contains target (run_text r) then Some 0 else map_option Suc (find_run target is))"
| "find_run target (i # is) = map_option Suc (find_run target is)"

text \<open>
  The loop \<^verbatim>\<open>for para in doc.paragraphs\<close> up to the run found: a paragraph whose text does
  not contain the target is skipped, and so is one in which no single run contains it.
  The result is the index of the paragraph and the index of the run in it.
\<close>

fun locate :: "string \<Rightarrow> para list \<Rightarrow> (nat \<times> nat) option" where
  "locate target [] = None"
| "locate target (p # ps) =
     (if \<not> contains target (para_text p)
      then map_option (\<lambda>(j, i). (Suc j, i)) (locate target ps)
      else case find_run target (pKids p) of
             None \<Rightarrow> map_option (\<lambda>(j, i). (Suc j, i)) (locate target ps)
           | Some i \<Rightarrow> Some (0, i))"

text \<open>
  The split of the run with index \<open>i\<close> among the children \<open>kids\<close> of the paragraph:
  \<^verbatim>\<open>run.text = before\<close>; a new run with the target and \<^verbatim>\<open>run.style\<close>; a new run with
  \<^verbatim>\<open>after\<close> and \<^verbatim>\<open>run.style\<close> when \<^verbatim>\<open>after\<close> is not empty; both moved to stand right after
  the run. The target run then has index \<open>i + 1\<close>.
\<close>

definition split_run :: "styles \<Rightarrow> string \<Rightarrow> item list \<Rightarrow> nat \<Rightarrow> error + item list" where
  "split_run sty target kids i =
     (case kids ! i of
        R run \<Rightarrow>
          (case partition_str (run_text run) target of
             Inl e \<Rightarrow> Inl e
           | Inr (bef, _, aft) \<Rightarrow>
               Inr (take i kids @
                    [R (set_text run bef),
                     R (set_style sty (add_run target) (get_style sty run))] @
                    (if aft \<noteq> []
                     then [R (set_style sty (add_run aft) (get_style sty run))]
                     else []) @
                    drop (Suc i) kids))
      | _ \<Rightarrow> Inr kids)"

text \<open>
  \<^verbatim>\<open>_insert_paragraph_after(para)\<close> for the paragraph with index \<open>j\<close>: a deep copy of the
  \<^verbatim>\<open>w:p\<close> element, from which every child is removed (\<^verbatim>\<open>w:pPr\<close> is one of them), is placed
  right after it. The \<^verbatim>\<open>return\<close> then evaluates \<^verbatim>\<open>para._parent._body._paragraphs[-1]\<close>:
  \<^verbatim>\<open>para._parent\<close> is the library's body object and \<^verbatim>\<open>._body\<close> its \<^verbatim>\<open>w:body\<close> element, which
  has no attribute \<^verbatim>\<open>_paragraphs\<close>, so the helper leaves by \<^verbatim>\<open>AttributeError\<close>. The result
  is the document as the helper leaves it and what it returns: the exception, or the
  index of a paragraph.
\<close>

definition insert_paragraph_after :: "document \<Rightarrow> nat \<Rightarrow> document \<times> (error + nat)" where
  "insert_paragraph_after doc j =
     (let new_p = \<lparr>pAttrs = pAttrs (doc ! j), pPr = None, pKids = []\<rparr>
      in (take (Suc j) doc @ [new_p] @ drop (Suc j) doc, Inl AttributeError))"

text \<open>
  From the split to the anchor, for the run with index \<open>i\<close> of the paragraph with index
  \<open>j\<close>. The result is the document and where the anchor run is: the index of its
  paragraph and its index among the children of that paragraph. The document is the
  local \<^verbatim>\<open>doc\<close> of the method, so nothing of it is left when an exception ends the call.
\<close>

definition split_and_anchor ::
  "styles \<Rightarrow> bool \<Rightarrow> string \<Rightarrow> document \<Rightarrow> nat \<Rightarrow> nat \<Rightarrow> error + (document \<times> nat \<times> nat)" where
  "split_and_anchor sty new_paragraph target doc j i =
     (case split_run sty target (pKids (doc ! j)) i of
        Inl e \<Rightarrow> Inl e
      | Inr kids \<Rightarrow>
          (if new_paragraph then
             (case insert_paragraph_after (doc[j := (doc ! j)\<lparr>pKids := kids\<rparr>]) j of
                (doc', Inl e) \<Rightarrow> Inl e
              | (doc', Inr l) \<Rightarrow>
                  Inr (doc'[l := (doc' ! l)\<lparr>pKids := pKids (doc' ! l) @ [R (add_run [])]\<rparr>],
                       l, length (pKids (doc' ! l))))
           else
             Inr (doc[j := (doc ! j)\<lparr>pKids :=
                    take (i + 2) kids @ [R (add_run [])] @ drop (i + 2) kids\<rparr>],
                  j, i + 2)))"

text \<open>
  \<^verbatim>\<open>add_comment_to_paragraph(target_text, comment_text, author, initials, new_paragraph)\<close>.
  \<^verbatim>\<open>anchor_run.add_comment\<close> belongs to the library and is a parameter here: it is given
  the comment and where the anchor run is, and returns the document with the comment
  attached. \<^verbatim>\<open>doc.save\<close> writes the archive at \<^verbatim>\<open>self.output_path\<close>.
\<close>

definition add_comment_to_paragraph ::
  "styles \<Rightarrow> (string \<Rightarrow> string \<Rightarrow> string \<Rightarrow> nat \<Rightarrow> nat \<Rightarrow> document \<Rightarrow> document) \<Rightarrow>
   session \<Rightarrow> string \<Rightarrow> string \<Rightarrow> string \<Rightarrow> string \<Rightarrow> bool \<Rightarrow> (error + pyval) \<times> session" where
  "add_comment_to_paragraph sty add_comment s target_text comment_text auth initials
       new_paragraph =
     (if target_text = [] \<or> strip target_text = []
      then (Inr PyNone, s\<lparr>stdout := stdout s @ [Skipping_comment_empty]\<rparr>)
      else case files s (docx_path s) of
             None \<Rightarrow> (Inl PackageNotFoundError, s)
           | Some doc \<Rightarrow>
               (case locate target_text doc of
                  None \<Rightarrow> (Inr PyNone, s\<lparr>stdout := stdout s @ [Text_not_found]\<rparr>)
                | Some (j, i) \<Rightarrow>
                    (case split_and_anchor sty new_paragraph target_text doc j i of
                       Inl e \<Rightarrow> (Inl e, s)
                     | Inr (doc', aj, ai) \<Rightarrow>
                         (let saved = add_comment comment_text auth initials aj ai doc';
                              s1 = s\<lparr>files := (files s)(output_path s := Some saved),
                                     docx_path := output_path s\<rparr>
                          in case reload s1 of
                               Inl e \<Rightarrow> (Inl e, s1)
                             | Inr s2 \<Rightarrow>
                                 (Inr PyNone, s2\<lparr>stdout := stdout s2 @ [Comment_added]\<rparr>)))))"

section \<open>Example inputs\<close>

definition ex_now :: "nat \<Rightarrow> datetime" where
  "ex_now k = \<lparr>year = 2025, month = 6, day = 1, hour = 12, minute = 30, second = 5,
              microsecond = k\<rparr>"

definition ex_para :: "string \<Rightarrow> para" where
  "ex_para s = \<lparr>pAttrs = [], pPr = None, pKids = [R (new_run [T s])]\<rparr>"

definition ex_session :: "document \<Rightarrow> session" where
  "ex_session d =
     \<lparr>docx_path = ''in.docx'', output_path = ''out.docx'',
      files = (\<lambda>_. None)(''in.docx'' := Some d), temp_dir = Some d,
      id_counter = max_default (doc_ids d) 0 + 1, doc_tree = d, clock = 0, stdout = []\<rparr>"




text \<open>Three paragraphs; the second does not hold \<^verbatim>\<open>X\<close>.\<close>

definition ex_three :: document where
  "ex_three = [ex_para ''X and X'', ex_para ''none'', ex_para ''X'']"

text \<open>A stand-in for the library's \<^verbatim>\<open>add_comment\<close>: it hangs a comment reference on the
  anchor run.\<close>

definition ex_attach :: "string \<Rightarrow> string \<Rightarrow> string \<Rightarrow> nat \<Rightarrow> nat \<Rightarrow> document \<Rightarrow> document" where
  "ex_attach txt auth ini aj ai d =
     d[aj := (d ! aj)\<lparr>pKids := (pKids (d ! aj))[ai :=
        (case pKids (d ! aj) ! ai of
           R r \<Rightarrow> R (r\<lparr>rKids := rKids r @ [Other ''commentReference'']\<rparr>)
         | i \<Rightarrow> i)]\<rparr>]"

text \<open>A styles part that defines the character styles \<^verbatim>\<open>DefaultParagraphFont\<close> (the default)
  and \<^verbatim>\<open>Strong\<close>.\<close>

definition ex_styles :: styles where
  "ex_styles = \<lparr>char_styles = [''DefaultParagraphFont'', ''Strong''],
                default_char_style = Some ''DefaultParagraphFont''\<rparr>"

text \<open>A paragraph with paragraph properties whose one run is bold (direct formatting) and
  has the character style \<^verbatim>\<open>Strong\<close>.\<close>

definition bold_para :: "string \<Rightarrow> para" where
  "bold_para s =
     \<lparr>pAttrs = [(''rsidR'', ''00A1'')], pPr = Some ''Heading1'',
      pKids = [R \<lparr>rStyle = Some ''Strong'', rFmt = [''b''], rKids = [T s]\<rparr>]\<rparr>"

section \<open>Strings: lemmas\<close>

lemma find_sub_None_iff: "find_sub sep s = None \<longleftrightarrow> \<not> sublist sep s"
  by (induction s) (auto simp: sublist_Cons_right)

lemma contains_iff_sublist: "contains sep s \<longleftrightarrow> sublist sep s"
  by (simp add: contains_def find_sub_None_iff)

lemma contains_concat:
  assumes "s \<in> set ss" and "contains sep s"
  shows "contains sep (concat ss)"
proof -
  from assms(1) obtain xs ys where ss: "ss = xs @ s # ys"
    by (auto simp: in_set_conv_decomp)
  from assms(2) obtain a b where s: "s = a @ sep @ b"
    by (auto simp: contains_iff_sublist sublist_def)
  have "concat ss = (concat xs @ a) @ sep @ (b @ concat ys)"
    by (simp add: ss s)
  then show ?thesis
    unfolding contains_iff_sublist sublist_def by blast
qed

section \<open>A call that finds nothing\<close>

lemma first_t_None:
  "(\<And>s. T s \<in> set ks \<Longrightarrow> \<not> contains old s) \<Longrightarrow> first_t old ks = None"
  by (induction old ks rule: first_t.induct) auto

lemma subst_items_None:
  "(\<And>s. s \<in> set (concat (map item_texts is)) \<Longrightarrow> \<not> contains (old_text P) s)
     \<Longrightarrow> subst_items P cid clk is = Inr None"
proof (induction P cid clk "is" rule: subst_items.induct)
  case (1 P cid clk)
  then show ?case by simp
next
  case (2 P cid clk r "is")
  have "first_t (old_text P) (rKids r) = None"
  proof (rule first_t_None)
    fix s assume "T s \<in> set (rKids r)"
    then have "s \<in> set (item_texts (R r))"
      by (force simp: t_text_def)
    then show "\<not> contains (old_text P) s"
      using "2.prems" by simp
  qed
  moreover have "subst_items P cid clk is = Inr None"
    using "2.IH" [OF \<open>first_t (old_text P) (rKids r) = None\<close>] "2.prems" by simp
  ultimately show ?case by simp
next
  case (3 P cid clk v js "is")
  have a: "subst_items P cid clk js = Inr None"
    using "3.IH"(1) "3.prems" by simp
  have "subst_items P cid clk is = Inr None"
    using "3.IH"(2) [OF a] "3.prems" by simp
  with a show ?case by simp
next
  case (4 P cid clk v js "is")
  have a: "subst_items P cid clk js = Inr None"
    using "4.IH"(1) "4.prems" by simp
  have "subst_items P cid clk is = Inr None"
    using "4.IH"(2) [OF a] "4.prems" by simp
  with a show ?case by simp
qed

lemma modify_paras_absent:
  "(\<And>p. p \<in> set ps \<Longrightarrow> \<not> contains (old_text P) (get_full_text p))
     \<Longrightarrow> modify_paras P c clk ps = (None, [], ps, c, clk)"
proof (induction ps)
  case Nil
  then show ?case by simp
next
  case (Cons p ps)
  have "subst_items P c clk (pKids p) = Inr None"
  proof (rule subst_items_None)
    fix s assume "s \<in> set (concat (map item_texts (pKids p)))"
    then have "contains (old_text P) s \<Longrightarrow> contains (old_text P) (get_full_text p)"
      unfolding get_full_text_def by (rule contains_concat)
    then show "\<not> contains (old_text P) s"
      using Cons.prems by auto
  qed
  then show ?case
    using Cons by simp
qed

section \<open>The search for the text node to edit\<close>

lemma find_sub_Some:
  "find_sub sep s = Some i \<Longrightarrow> s = take i s @ sep @ drop (i + length sep) s"
proof (induction s arbitrary: i)
  case Nil
  then show ?case by (simp split: if_splits)
next
  case (Cons c cs)
  show ?case
  proof (cases "prefix sep (c # cs)")
    case True
    with Cons.prems have "i = 0" by simp
    moreover from True obtain zs where "c # cs = sep @ zs"
      by (auto simp: prefix_def)
    ultimately show ?thesis by simp
  next
    case False
    with Cons.prems obtain j where j: "find_sub sep cs = Some j" "i = Suc j"
      by auto
    from Cons.IH [OF j(1)] show ?thesis
      using j(2) by simp
  qed
qed

lemma find_sub_first:
  "find_sub sep s = Some i \<Longrightarrow> j < i \<Longrightarrow> \<not> prefix sep (drop j s)"
proof (induction s arbitrary: i j)
  case Nil
  then show ?case by (simp split: if_splits)
next
  case (Cons c cs)
  from Cons.prems have np: "\<not> prefix sep (c # cs)"
    by (auto split: if_splits)
  with Cons.prems obtain i' where i': "find_sub sep cs = Some i'" "i = Suc i'"
    by auto
  show ?case
  proof (cases j)
    case 0
    with np show ?thesis by simp
  next
    case (Suc j')
    with Cons.prems i' have "j' < i'" by simp
    from Cons.IH [OF i'(1) this] Suc show ?thesis by simp
  qed
qed

lemma partition_str_found:
  "sep \<noteq> [] \<Longrightarrow> contains sep s \<Longrightarrow>
   \<exists>i. find_sub sep s = Some i \<and>
       partition_str s sep = Inr (take i s, sep, drop (i + length sep) s)"
  by (auto simp: contains_def partition_str_def)

lemma first_t_None_iff:
  "first_t old ks = None \<longleftrightarrow> \<not> list_ex (\<lambda>s. s \<noteq> [] \<and> contains old s) (map t_text (filter (\<lambda>k. case k of T s \<Rightarrow> True | _ \<Rightarrow> False) ks))"
  by (induction old ks rule: first_t.induct) (auto simp: t_text_def)

lemma first_t_Some:
  "first_t old ks = Some k \<Longrightarrow>
     k < length ks \<and> t_text (ks ! k) \<noteq> [] \<and> contains old (t_text (ks ! k)) \<and> ks ! k = T (t_text (ks ! k))"
  by (induction old ks arbitrary: k rule: first_t.induct)
     (auto simp: t_text_def split: if_splits)

lemma edit_run_ok:
  assumes "old_text P \<noteq> []" and "first_t (old_text P) (rKids r) = Some k"
  shows "\<exists>js. edit_run P cid clk r k = Inr js"
proof -
  from first_t_Some [OF assms(2)] have "contains (old_text P) (t_text (rKids r ! k))"
    by simp
  from partition_str_found [OF assms(1) this] show ?thesis
    by (auto simp: edit_run_def)
qed

lemma edit_run_empty:
  "old_text P = [] \<Longrightarrow> edit_run P cid clk r k = Inl ValueError"
  by (simp add: edit_run_def partition_str_def)

lemma subst_items_None_iff:
  "subst_items P cid clk is = Inr None \<longleftrightarrow>
     \<not> list_ex (\<lambda>s. s \<noteq> [] \<and> contains (old_text P) s) (concat (map item_texts is))"
proof (induction P cid clk "is" rule: subst_items.induct)
  case (1 P cid clk)
  then show ?case by simp
next
  case (2 P cid clk r "is")
  show ?case
  proof (cases "first_t (old_text P) (rKids r)")
    case None
    then have "\<not> list_ex (\<lambda>s. s \<noteq> [] \<and> contains (old_text P) s) (item_texts (R r))"
      by (simp add: first_t_None_iff)
    with None "2.IH" show ?thesis
      by (auto split: sum.splits option.splits)
  next
    case (Some k)
    then have "first_t (old_text P) (rKids r) \<noteq> None" by simp
    then have "list_ex (\<lambda>s. s \<noteq> [] \<and> contains (old_text P) s) (item_texts (R r))"
      by (simp add: first_t_None_iff)
    with Some show ?thesis
      by (auto split: sum.splits option.splits)
  qed
next
  case (3 P cid clk v js "is")
  then show ?case
    by (auto split: sum.splits option.splits)
next
  case (4 P cid clk v js "is")
  then show ?case
    by (auto split: sum.splits option.splits)
qed

lemma subst_items_no_error:
  "old_text P \<noteq> [] \<Longrightarrow> subst_items P cid clk is \<noteq> Inl e"
proof (induction P cid clk "is" rule: subst_items.induct)
  case (1 P cid clk)
  then show ?case by simp
next
  case (2 P cid clk r "is")
  then show ?case
    using edit_run_ok [of P r _ cid clk]
    by (fastforce split: sum.splits option.splits)
next
  case (3 P cid clk v js "is")
  then show ?case
    by (auto split: sum.splits option.splits)
next
  case (4 P cid clk v js "is")
  then show ?case
    by (auto split: sum.splits option.splits)
qed

lemma subst_items_empty_old:
  "old_text P = [] \<Longrightarrow>
   subst_items P cid clk is = Inr None \<or> subst_items P cid clk is = Inl ValueError"
proof (induction P cid clk "is" rule: subst_items.induct)
  case (1 P cid clk)
  then show ?case by simp
next
  case (2 P cid clk r "is")
  then show ?case
    by (auto simp: edit_run_empty split: sum.splits option.splits)
next
  case (3 P cid clk v js "is")
  then show ?case
    by (auto split: sum.splits option.splits)
next
  case (4 P cid clk v js "is")
  then show ?case
    by (auto split: sum.splits option.splits)
qed

section \<open>The loop over the paragraphs\<close>

lemma subst_items_append:
  "subst_items P cid clk xs = Inr None \<Longrightarrow>
   subst_items P cid clk (xs @ ys) =
     (case subst_items P cid clk ys of
        Inl e \<Rightarrow> Inl e
      | Inr None \<Rightarrow> Inr None
      | Inr (Some ys') \<Rightarrow> Inr (Some (xs @ ys')))"
proof (induction P cid clk xs rule: subst_items.induct)
  case (1 P cid clk)
  then show ?case by (simp split: sum.splits option.splits)
next
  case (2 P cid clk r "is")
  then show ?case
    by (auto split: sum.splits option.splits)
next
  case (3 P cid clk v js "is")
  then show ?case
    by (auto split: sum.splits option.splits)
next
  case (4 P cid clk v js "is")
  then show ?case
    by (auto split: sum.splits option.splits)
qed

lemma subst_items_at_run:
  assumes "\<not> list_ex (\<lambda>s. s \<noteq> [] \<and> contains (old_text P) s) (concat (map item_texts pre))"
    and "first_t (old_text P) (rKids r) = Some k"
    and "edit_run P cid clk r k = Inr mid"
  shows "subst_items P cid clk (pre @ R r # post) = Inr (Some (pre @ mid @ post))"
proof -
  have "subst_items P cid clk pre = Inr None"
    using assms(1) by (simp add: subst_items_None_iff)
  moreover have "subst_items P cid clk (R r # post) = Inr (Some (mid @ post))"
    using assms(2,3) by simp
  ultimately show ?thesis
    by (simp add: subst_items_append)
qed

lemma subst_items_hit:
  "old_text P \<noteq> [] \<Longrightarrow>
   has_match (old_text P) p \<longleftrightarrow> (\<exists>js. subst_items P cid clk (pKids p) = Inr (Some js))"
  using subst_items_None_iff [of P cid clk "pKids p"] subst_items_no_error [of P cid clk "pKids p"]
  by (cases "subst_items P cid clk (pKids p)") (auto simp: has_match_def)

lemma modify_para_miss:
  "\<not> has_match (old_text P) p \<Longrightarrow> modify_para P c clk p = p"
  using subst_items_None_iff [of P c clk "pKids p"]
  by (simp add: modify_para_def has_match_def)

lemma hits_Cons:
  "hits old (p # ps) = (if has_match old p then Suc (hits old ps) else hits old ps)"
  by (simp add: hits_def)

lemma modify_paras_ok:
  assumes "old_text P \<noteq> []"
  shows "\<exists>ps'. modify_paras P c clk ps =
           (None, map (\<lambda>i. c + int i) [0..<hits (old_text P) ps], ps',
            c + int (hits (old_text P) ps), clk + 2 * hits (old_text P) ps)
         \<and> length ps' = length ps
         \<and> (\<forall>j<length ps. ps' ! j =
                modify_para P (c + int (hits (old_text P) (take j ps)))
                  (clk + 2 * hits (old_text P) (take j ps)) (ps ! j))"
proof (induction ps arbitrary: c clk)
  case Nil
  then show ?case by (simp add: hits_def)
next
  case (Cons p ps)
  show ?case
  proof (cases "has_match (old_text P) p")
    case False
    then have sub: "subst_items P c clk (pKids p) = Inr None"
      by (simp add: subst_items_None_iff has_match_def)
    from Cons.IH [of c clk] obtain ps' where
      r: "modify_paras P c clk ps =
           (None, map (\<lambda>i. c + int i) [0..<hits (old_text P) ps], ps',
            c + int (hits (old_text P) ps), clk + 2 * hits (old_text P) ps)"
      and l: "length ps' = length ps"
      and n: "\<forall>j<length ps. ps' ! j =
                modify_para P (c + int (hits (old_text P) (take j ps)))
                  (clk + 2 * hits (old_text P) (take j ps)) (ps ! j)"
      by blast
    have "\<forall>j<length (p # ps). (p # ps') ! j =
            modify_para P (c + int (hits (old_text P) (take j (p # ps))))
              (clk + 2 * hits (old_text P) (take j (p # ps))) ((p # ps) ! j)"
    proof (intro allI impI)
      fix j assume "j < length (p # ps)"
      then show "(p # ps') ! j =
            modify_para P (c + int (hits (old_text P) (take j (p # ps))))
              (clk + 2 * hits (old_text P) (take j (p # ps))) ((p # ps) ! j)"
        using n False by (cases j) (simp_all add: hits_Cons modify_para_miss)
    qed
    with sub r l False show ?thesis
      by (simp add: hits_Cons)
  next
    case True
    then obtain js where sub: "subst_items P c clk (pKids p) = Inr (Some js)"
      using subst_items_hit [OF assms] by blast
    from Cons.IH [of "c + 1" "clk + 2"] obtain ps' where
      r: "modify_paras P (c + 1) (clk + 2) ps =
           (None, map (\<lambda>i. c + 1 + int i) [0..<hits (old_text P) ps], ps',
            c + 1 + int (hits (old_text P) ps), clk + 2 + 2 * hits (old_text P) ps)"
      and l: "length ps' = length ps"
      and n: "\<forall>j<length ps. ps' ! j =
                modify_para P (c + 1 + int (hits (old_text P) (take j ps)))
                  (clk + 2 + 2 * hits (old_text P) (take j ps)) (ps ! j)"
      by blast
    have "\<forall>j<length (p # ps). (p\<lparr>pKids := js\<rparr> # ps') ! j =
            modify_para P (c + int (hits (old_text P) (take j (p # ps))))
              (clk + 2 * hits (old_text P) (take j (p # ps))) ((p # ps) ! j)"
    proof (intro allI impI)
      fix j assume "j < length (p # ps)"
      then show "(p\<lparr>pKids := js\<rparr> # ps') ! j =
            modify_para P (c + int (hits (old_text P) (take j (p # ps))))
              (clk + 2 * hits (old_text P) (take j (p # ps))) ((p # ps) ! j)"
      proof (cases j)
        case 0
        with sub show ?thesis
          by (simp add: modify_para_def hits_def)
      next
        case (Suc j')
        with \<open>j < length (p # ps)\<close> have j': "j' < length ps" by simp
        define h where "h = hits (old_text P) (take j' ps)"
        have a: "c + int (Suc h) = c + 1 + int h" and b: "clk + 2 * Suc h = clk + 2 + 2 * h"
          by simp_all
        have "hits (old_text P) (take j (p # ps)) = Suc h"
          using True Suc by (simp add: hits_Cons h_def)
        moreover have "ps' ! j' = modify_para P (c + 1 + int h) (clk + 2 + 2 * h) (ps ! j')"
          using n j' by (simp add: h_def)
        ultimately show ?thesis
          using Suc by (simp only: a b nth_Cons_Suc)
      qed
    qed
    moreover have "c # map (\<lambda>i. c + 1 + int i) [0..<hits (old_text P) ps]
        = map (\<lambda>i. c + int i) [0..<Suc (hits (old_text P) ps)]"
      by (simp only: map_upt_Suc) (simp add: add.assoc)
    ultimately show ?thesis
      using sub r l True by (simp add: hits_Cons del: upt_Suc)
  qed
qed

section \<open>The ids handed out\<close>






lemma init_Inr:
  "init fs dp outp = Inr s0 \<Longrightarrow>
   fs dp = Some (doc_tree s0) \<and> id_counter s0 = max_default (doc_ids (doc_tree s0)) 0 + 1"
  by (auto simp: init_def reload_def unzip_def load_xml_def highest_existing_change_id_def
      Let_def split: option.splits sum.splits)


section \<open>The shape of \<^verbatim>\<open>isoformat\<close>\<close>

lemma length_pad: "length (pad w n) = w"
  by (induction w arbitrary: n) auto

lemma is_digit_digit: "is_digit (digit n)"
proof -
  have "is_digit (''0123456789'' ! k)" if "k < 10" for k
  proof -
    from that have "k = 0 \<or> k = 1 \<or> k = 2 \<or> k = 3 \<or> k = 4 \<or> k = 5 \<or> k = 6 \<or> k = 7
        \<or> k = 8 \<or> k = 9"
      by arith
    then show ?thesis
      by (elim disjE) (simp_all add: is_digit_def)
  qed
  then show ?thesis
    by (simp add: digit_def)
qed

lemma digits_pad: "list_all is_digit (pad w n)"
  by (induction w arbitrary: n) (auto simp: is_digit_digit)

lemma isoformat_shaped: "iso_shaped (isoformat d)"
proof -
  define a where "a = pad 4 (year d)"
  define b where "b = pad 2 (month d)"
  define c where "c = pad 2 (day d)"
  define e where "e = pad 2 (hour d)"
  define f where "f = pad 2 (minute d)"
  define g where "g = pad 2 (second d)"
  define u where "u = pad 6 (microsecond d)"
  have l: "length a = 4" "length b = 2" "length c = 2" "length e = 2" "length f = 2"
    "length g = 2" "length u = 6"
    by (simp_all only: a_def b_def c_def e_def f_def g_def u_def length_pad)
  have dg: "list_all is_digit a" "list_all is_digit b" "list_all is_digit c"
    "list_all is_digit e" "list_all is_digit f" "list_all is_digit g" "list_all is_digit u"
    by (simp_all only: a_def b_def c_def e_def f_def g_def u_def digits_pad)
  have iso: "isoformat d = a @ ''-'' @ b @ ''-'' @ c @ ''T'' @ e @ '':'' @ f @ '':'' @ g @
      (if microsecond d = 0 then [] else ''.'' @ u)"
    by (simp only: isoformat_def a_def b_def c_def e_def f_def g_def u_def)
  show ?thesis
    unfolding iso iso_shaped_def using l dg
    by (simp add: nth_append)
qed

lemma pad_numeral: "pad (numeral w) n = pad (pred_numeral w) (n div 10) @ [digit n]"
  using pad.simps(2) [of "pred_numeral w" n] by (simp only: numeral_eq_Suc [symmetric])

lemma isoformat_ex_now:
  "isoformat (ex_now 2) = ''2025-06-01T12:30:05.000002''"
  "isoformat (ex_now 3) = ''2025-06-01T12:30:05.000003''"
  by (simp_all add: isoformat_def ex_now_def digit_def pad_numeral)

section \<open>The revision ids of an edited paragraph\<close>

lemma edit_run_ids:
  "edit_run P c clk r k = Inr mid \<Longrightarrow> concat (map item_ids mid) = [c, c]"
  by (auto simp: edit_run_def split: sum.splits prod.splits)

lemma subst_items_ids:
  "subst_items P c clk is = Inr (Some js) \<Longrightarrow>
   \<exists>xs ys. concat (map item_ids is) = xs @ ys \<and> concat (map item_ids js) = xs @ [c, c] @ ys"
proof (induction P c clk "is" arbitrary: js rule: subst_items.induct)
  case (1 P cid clk)
  then show ?case by simp
next
  case (2 P cid clk r "is")
  show ?case
  proof (cases "first_t (old_text P) (rKids r)")
    case (Some k)
    with "2.prems" obtain mid where m: "edit_run P cid clk r k = Inr mid" "js = mid @ is"
      by (auto split: sum.splits)
    from edit_run_ids [OF m(1)] m(2)
    have "concat (map item_ids (R r # is)) = [] @ concat (map item_ids is)"
      "concat (map item_ids js) = [] @ [cid, cid] @ concat (map item_ids is)"
      by simp_all
    then show ?thesis by blast
  next
    case None
    with "2.prems" obtain is' where i: "subst_items P cid clk is = Inr (Some is')" "js = R r # is'"
      by (auto split: sum.splits option.splits)
    from "2.IH" [OF None i(1)] i(2) show ?thesis by simp
  qed
next
  case (3 P cid clk v ks "is")
  show ?case
  proof (cases "subst_items P cid clk ks")
    case (Inl e)
    with "3.prems" show ?thesis by simp
  next
    case (Inr o1)
    show ?thesis
    proof (cases o1)
      case (Some ks')
      with Inr "3.prems" have j: "js = Ins v ks' # is" by simp
      from "3.IH"(1) Inr Some obtain xs ys where
        "concat (map item_ids ks) = xs @ ys" "concat (map item_ids ks') = xs @ [cid, cid] @ ys"
        by blast
      then have "concat (map item_ids (Ins v ks # is)) = (rid v # xs) @ (ys @ concat (map item_ids is))"
        "concat (map item_ids js) = (rid v # xs) @ [cid, cid] @ (ys @ concat (map item_ids is))"
        by (simp_all add: j)
      then show ?thesis by blast
    next
      case None
      with Inr "3.prems" obtain is' where
        i: "subst_items P cid clk is = Inr (Some is')" "js = Ins v ks # is'"
        by (auto split: sum.splits option.splits)
      from "3.IH"(2) Inr None i(1) obtain xs ys where
        "concat (map item_ids is) = xs @ ys" "concat (map item_ids is') = xs @ [cid, cid] @ ys"
        by blast
      then have "concat (map item_ids (Ins v ks # is)) = (rid v # concat (map item_ids ks) @ xs) @ ys"
        "concat (map item_ids js) = (rid v # concat (map item_ids ks) @ xs) @ [cid, cid] @ ys"
        by (simp_all add: i(2))
      then show ?thesis by blast
    qed
  qed
next
  case (4 P cid clk v ks "is")
  show ?case
  proof (cases "subst_items P cid clk ks")
    case (Inl e)
    with "4.prems" show ?thesis by simp
  next
    case (Inr o1)
    show ?thesis
    proof (cases o1)
      case (Some ks')
      with Inr "4.prems" have j: "js = Del v ks' # is" by simp
      from "4.IH"(1) Inr Some obtain xs ys where
        "concat (map item_ids ks) = xs @ ys" "concat (map item_ids ks') = xs @ [cid, cid] @ ys"
        by blast
      then have "concat (map item_ids (Del v ks # is)) = (rid v # xs) @ (ys @ concat (map item_ids is))"
        "concat (map item_ids js) = (rid v # xs) @ [cid, cid] @ (ys @ concat (map item_ids is))"
        by (simp_all add: j)
      then show ?thesis by blast
    next
      case None
      with Inr "4.prems" obtain is' where
        i: "subst_items P cid clk is = Inr (Some is')" "js = Del v ks # is'"
        by (auto split: sum.splits option.splits)
      from "4.IH"(2) Inr None i(1) obtain xs ys where
        "concat (map item_ids is) = xs @ ys" "concat (map item_ids is') = xs @ [cid, cid] @ ys"
        by blast
      then have "concat (map item_ids (Del v ks # is)) = (rid v # concat (map item_ids ks) @ xs) @ ys"
        "concat (map item_ids js) = (rid v # concat (map item_ids ks) @ xs) @ [cid, cid] @ ys"
        by (simp_all add: i(2))
      then show ?thesis by blast
    qed
  qed
qed

lemma modify_para_hit_ids:
  assumes "old_text P \<noteq> []" and "has_match (old_text P) p"
  shows "length (para_ids (modify_para P c clk p)) = length (para_ids p) + 2
       \<and> set (para_ids (modify_para P c clk p)) = insert c (set (para_ids p))
       \<and> pAttrs (modify_para P c clk p) = pAttrs p \<and> pPr (modify_para P c clk p) = pPr p"
proof -
  from assms obtain js where j: "subst_items P c clk (pKids p) = Inr (Some js)"
    using subst_items_hit by blast
  from subst_items_ids [OF j] obtain xs ys where
    "para_ids p = xs @ ys" "concat (map item_ids js) = xs @ [c, c] @ ys"
    by (auto simp: para_ids_def)
  with j show ?thesis
    by (auto simp: modify_para_def para_ids_def)
qed

section \<open>One call on a session\<close>

lemma hits_append: "hits old (xs @ ys) = hits old xs + hits old ys"
  by (simp add: hits_def)

lemma has_match_at_run:
  assumes "pKids p = pre @ R r # post" and "first_t old (rKids r) = Some k"
  shows "has_match old p"
proof -
  from assms(2) have "first_t old (rKids r) \<noteq> None" by simp
  then have "list_ex (\<lambda>s. s \<noteq> [] \<and> contains old s) (item_texts (R r))"
    by (simp add: first_t_None_iff)
  then show ?thesis
    by (auto simp: has_match_def assms(1) list_ex_iff)
qed

lemma edit_run_at:
  assumes "old_text P \<noteq> []" and "find_sub (old_text P) (t_text (rKids r ! k)) = Some i"
  shows "edit_run P cid clk r k =
     Inr ((if take i (t_text (rKids r ! k)) \<noteq> []
           then [R (r\<lparr>rKids := (rKids r)[k := T (take i (t_text (rKids r ! k)))]\<rparr>)] else []) @
          [Del \<lparr>rid = cid, rauthor = author P, rdate = isoformat (now P clk)\<rparr>
               [R (new_run [DelText (old_text P)])],
           Ins \<lparr>rid = cid, rauthor = author P, rdate = isoformat (now P (clk + 1))\<rparr>
               [R (new_run [T (CHR '' '' # new_text P)])]] @
          (if drop (i + length (old_text P)) (t_text (rKids r ! k)) \<noteq> []
           then [R (new_run [T (drop (i + length (old_text P)) (t_text (rKids r ! k)))])]
           else []))"
  using assms by (simp add: edit_run_def partition_str_def)

lemma modify_text_in_doc_at:
  assumes old: "old \<noteq> []"
    and doc: "doc_tree s = ps1 @ p # ps2"
  shows "\<exists>ps'. modify_text_in_doc clk_now s old new full auth =
           (Inr PyNone, map (\<lambda>i. id_counter s + int i) [0..<hits old (doc_tree s)],
            s\<lparr>doc_tree := ps', id_counter := id_counter s + int (hits old (doc_tree s)),
              clock := clock s + 2 * hits old (doc_tree s)\<rparr>)
         \<and> length ps' = length (doc_tree s)
         \<and> ps' ! length ps1 =
             modify_para \<lparr>now = clk_now, old_text = old, new_text = new, author = auth\<rparr>
               (id_counter s + int (hits old ps1)) (clock s + 2 * hits old ps1) p"
proof -
  let ?P = "\<lparr>now = clk_now, old_text = old, new_text = new, author = auth\<rparr>"
  from old have "old_text ?P \<noteq> []" by simp
  from modify_paras_ok [OF this, of "id_counter s" "clock s" "doc_tree s"]
  obtain ps' where
    r: "modify_paras ?P (id_counter s) (clock s) (doc_tree s) =
           (None, map (\<lambda>i. id_counter s + int i) [0..<hits old (doc_tree s)], ps',
            id_counter s + int (hits old (doc_tree s)), clock s + 2 * hits old (doc_tree s))"
    and l: "length ps' = length (doc_tree s)"
    and n: "\<forall>j<length (doc_tree s). ps' ! j =
                modify_para ?P (id_counter s + int (hits old (take j (doc_tree s))))
                  (clock s + 2 * hits old (take j (doc_tree s))) (doc_tree s ! j)"
    by auto
  have "length ps1 < length (doc_tree s)" by (simp add: doc)
  with n have "ps' ! length ps1 =
      modify_para ?P (id_counter s + int (hits old (take (length ps1) (doc_tree s))))
        (clock s + 2 * hits old (take (length ps1) (doc_tree s))) (doc_tree s ! length ps1)"
    by blast
  then have "ps' ! length ps1 =
      modify_para ?P (id_counter s + int (hits old ps1)) (clock s + 2 * hits old ps1) p"
    by (simp add: doc)
  with r l show ?thesis
    by (intro exI [of _ ps']) (simp add: modify_text_in_doc_def)
qed

lemma modify_text_in_doc_all:
  assumes old: "old \<noteq> []"
    and res: "modify_text_in_doc clk_now s old new full auth = (res, ids, s')"
  shows "res = Inr PyNone
     \<and> ids = map (\<lambda>i. id_counter s + int i) [0..<hits old (doc_tree s)]
     \<and> s' = s\<lparr>doc_tree := doc_tree s', id_counter := id_counter s + int (hits old (doc_tree s)),
              clock := clock s + 2 * hits old (doc_tree s)\<rparr>
     \<and> length (doc_tree s') = length (doc_tree s)
     \<and> (\<forall>j<length (doc_tree s). doc_tree s' ! j =
           modify_para \<lparr>now = clk_now, old_text = old, new_text = new, author = auth\<rparr>
             (id_counter s + int (hits old (take j (doc_tree s))))
             (clock s + 2 * hits old (take j (doc_tree s))) (doc_tree s ! j))"
proof -
  let ?P = "\<lparr>now = clk_now, old_text = old, new_text = new, author = auth\<rparr>"
  from old have "old_text ?P \<noteq> []" by simp
  from modify_paras_ok [OF this, of "id_counter s" "clock s" "doc_tree s"]
  obtain ps' where
    r: "modify_paras ?P (id_counter s) (clock s) (doc_tree s) =
           (None, map (\<lambda>i. id_counter s + int i) [0..<hits old (doc_tree s)], ps',
            id_counter s + int (hits old (doc_tree s)), clock s + 2 * hits old (doc_tree s))"
    and l: "length ps' = length (doc_tree s)"
    and n: "\<forall>j<length (doc_tree s). ps' ! j =
                modify_para ?P (id_counter s + int (hits old (take j (doc_tree s))))
                  (clock s + 2 * hits old (take j (doc_tree s))) (doc_tree s ! j)"
    by auto
  from r res have "res = Inr PyNone"
    "ids = map (\<lambda>i. id_counter s + int i) [0..<hits old (doc_tree s)]"
    "s' = s\<lparr>doc_tree := ps', id_counter := id_counter s + int (hits old (doc_tree s)),
              clock := clock s + 2 * hits old (doc_tree s)\<rparr>"
    by (simp_all add: modify_text_in_doc_def)
  with l n show ?thesis by simp
qed

section \<open>An empty old text\<close>

lemma has_match_empty:
  "has_match [] p \<longleftrightarrow> list_ex (\<lambda>t. t \<noteq> []) (concat (map item_texts (pKids p)))"
  by (simp add: has_match_def contains_def list_ex_iff) (metis find_sub.simps neq_Nil_conv option.distinct(1) Nil_prefix)

lemma modify_paras_empty:
  assumes "old_text P = []"
  shows "modify_paras P c clk ps =
     ((if list_ex (has_match []) ps then Some ValueError else None), [], ps, c, clk)"
proof (induction ps)
  case Nil
  then show ?case by simp
next
  case (Cons p ps)
  show ?case
  proof (cases "has_match [] p")
    case True
    then have "subst_items P c clk (pKids p) \<noteq> Inr None"
      using subst_items_None_iff [of P c clk "pKids p"] assms by (simp add: has_match_def)
    with subst_items_empty_old [OF assms, of c clk "pKids p"]
    have "subst_items P c clk (pKids p) = Inl ValueError" by blast
    with True show ?thesis by simp
  next
    case False
    then have "subst_items P c clk (pKids p) = Inr None"
      using subst_items_None_iff [of P c clk "pKids p"] assms by (simp add: has_match_def)
    with False Cons show ?thesis by simp
  qed
qed

section \<open>The place of the run that is edited\<close>

lemma subst_items_no_hit: "subst_items P c clk xs = Inr None \<longleftrightarrow> no_hit (old_text P) xs"
  by (simp add: subst_items_None_iff no_hit_def)

lemma no_hit_Cons_R:
  "no_hit old (R r # xs) \<longleftrightarrow> first_t old (rKids r) = None \<and> no_hit old xs"
  by (auto simp: no_hit_def first_t_None_iff)

lemma no_hit_Cons_Ins: "no_hit old (Ins v js # xs) \<longleftrightarrow> no_hit old js \<and> no_hit old xs"
  by (auto simp: no_hit_def)

lemma no_hit_Cons_Del: "no_hit old (Del v js # xs) \<longleftrightarrow> no_hit old js \<and> no_hit old xs"
  by (auto simp: no_hit_def)

lemma no_hit_Nil: "no_hit old []"
  by (simp add: no_hit_def)

lemma subst_items_wrap:
  "subst_items P c clk (wrap_item w js # post) =
     (case subst_items P c clk js of
        Inl e \<Rightarrow> Inl e
      | Inr (Some js') \<Rightarrow> Inr (Some (wrap_item w js' # post))
      | Inr None \<Rightarrow>
          (case subst_items P c clk post of
             Inl e \<Rightarrow> Inl e
           | Inr None \<Rightarrow> Inr None
           | Inr (Some post') \<Rightarrow> Inr (Some (wrap_item w js # post'))))"
  by (cases w) (simp_all split: sum.splits option.splits)

lemma frames_free_Nil: "frames_free old []"
  by (simp add: frames_free_def)

lemma frames_free_Cons:
  "frames_free old ((pre, w, post) # C) \<longleftrightarrow> no_hit old pre \<and> frames_free old C"
  by (simp add: frames_free_def)

lemma subst_items_plug:
  assumes "frames_free (old_text P) C" and "no_hit (old_text P) pre0"
    and "first_t (old_text P) (rKids r) = Some k"
    and "edit_run P c clk r k = Inr mid"
  shows "subst_items P c clk (plug C (pre0 @ R r # post0))
     = Inr (Some (plug C (pre0 @ mid @ post0)))"
  using assms(1)
proof (induction C)
  case Nil
  show ?case
    using assms(2,3,4) by (simp add: subst_items_at_run no_hit_def)
next
  case (Cons f C)
  obtain pre w post where f: "f = (pre, w, post)" by (cases f) auto
  from Cons.prems f have pre: "subst_items P c clk pre = Inr None" and fr: "frames_free (old_text P) C"
    by (simp_all add: frames_free_def subst_items_no_hit)
  show ?case
    by (simp add: f subst_items_append [OF pre] subst_items_wrap Cons.IH [OF fr])
qed

lemma subst_items_decomp:
  "subst_items P c clk is = Inr (Some js) \<Longrightarrow>
   \<exists>C pre0 r post0 k mid.
      is = plug C (pre0 @ R r # post0) \<and> frames_free (old_text P) C
    \<and> no_hit (old_text P) pre0 \<and> first_t (old_text P) (rKids r) = Some k
    \<and> edit_run P c clk r k = Inr mid \<and> js = plug C (pre0 @ mid @ post0)"
proof (induction P c clk "is" arbitrary: js rule: subst_items.induct)
  case (1 P cid clk)
  then show ?case by simp
next
  case (2 P cid clk r "is")
  show ?case
  proof (cases "first_t (old_text P) (rKids r)")
    case (Some k)
    with "2.prems" obtain mid where m: "edit_run P cid clk r k = Inr mid" "js = mid @ is"
      by (auto split: sum.splits)
    have "R r # is = plug [] ([] @ R r # is)" "js = plug [] ([] @ mid @ is)"
      using m by simp_all
    with Some m(1) show ?thesis
      using no_hit_Nil [of "old_text P"] frames_free_Nil [of "old_text P"] by blast
  next
    case None
    with "2.prems" obtain is' where i: "subst_items P cid clk is = Inr (Some is')" "js = R r # is'"
      by (auto split: sum.splits option.splits)
    from "2.IH" [OF None i(1)] obtain C pre0 r' post0 k mid where
      d: "is = plug C (pre0 @ R r' # post0)" "frames_free (old_text P) C"
         "no_hit (old_text P) pre0" "first_t (old_text P) (rKids r') = Some k"
         "edit_run P cid clk r' k = Inr mid" "is' = plug C (pre0 @ mid @ post0)"
      by blast
    show ?thesis
    proof (cases C)
      case Nil
      with d i(2) have "R r # is = plug [] ((R r # pre0) @ R r' # post0)"
        "js = plug [] ((R r # pre0) @ mid @ post0)"
        "no_hit (old_text P) (R r # pre0)"
        using None by (simp_all add: no_hit_Cons_R)
      with d(4,5) show ?thesis
        using frames_free_Nil [of "old_text P"] by blast
    next
      case (Cons f C')
      obtain pre w post where f: "f = (pre, w, post)" by (cases f) auto
      with Cons d i(2) have "R r # is = plug ((R r # pre, w, post) # C') (pre0 @ R r' # post0)"
        "js = plug ((R r # pre, w, post) # C') (pre0 @ mid @ post0)"
        "frames_free (old_text P) ((R r # pre, w, post) # C')"
        using None by (simp_all add: frames_free_def no_hit_Cons_R)
      with d(3,4,5) show ?thesis by blast
    qed
  qed
next
  case (3 P cid clk v ks "is")
  show ?case
  proof (cases "subst_items P cid clk ks")
    case (Inl e)
    with "3.prems" show ?thesis by simp
  next
    case (Inr o1)
    show ?thesis
    proof (cases o1)
      case (Some ks')
      with Inr "3.prems" have j: "js = Ins v ks' # is" by simp
      from "3.IH"(1) Inr Some obtain C pre0 r' post0 k mid where
        d: "ks = plug C (pre0 @ R r' # post0)" "frames_free (old_text P) C"
           "no_hit (old_text P) pre0" "first_t (old_text P) (rKids r') = Some k"
           "edit_run P cid clk r' k = Inr mid" "ks' = plug C (pre0 @ mid @ post0)"
        by blast
      have "Ins v ks # is = plug (([], InIns v, is) # C) (pre0 @ R r' # post0)"
        "js = plug (([], InIns v, is) # C) (pre0 @ mid @ post0)"
        "frames_free (old_text P) (([], InIns v, is) # C)"
        using d j by (simp_all add: frames_free_def no_hit_Nil)
      with d(3,4,5) show ?thesis by blast
    next
      case None
      with Inr have nk: "no_hit (old_text P) ks"
        using subst_items_no_hit [of P cid clk ks] by simp
      from None Inr "3.prems" obtain is' where
        i: "subst_items P cid clk is = Inr (Some is')" "js = Ins v ks # is'"
        by (auto split: sum.splits option.splits)
      from "3.IH"(2) Inr None i(1) obtain C pre0 r' post0 k mid where
        d: "is = plug C (pre0 @ R r' # post0)" "frames_free (old_text P) C"
           "no_hit (old_text P) pre0" "first_t (old_text P) (rKids r') = Some k"
           "edit_run P cid clk r' k = Inr mid" "is' = plug C (pre0 @ mid @ post0)"
        by blast
      show ?thesis
      proof (cases C)
        case Nil
        with d i(2) nk have "Ins v ks # is = plug [] ((Ins v ks # pre0) @ R r' # post0)"
          "js = plug [] ((Ins v ks # pre0) @ mid @ post0)"
          "no_hit (old_text P) (Ins v ks # pre0)"
          by (simp_all add: no_hit_Cons_Ins)
        with d(4,5) show ?thesis
          using frames_free_Nil [of "old_text P"] by blast
      next
        case (Cons f C')
        obtain pre w post where f: "f = (pre, w, post)" by (cases f) auto
        with Cons d i(2) nk have
          "Ins v ks # is = plug ((Ins v ks # pre, w, post) # C') (pre0 @ R r' # post0)"
          "js = plug ((Ins v ks # pre, w, post) # C') (pre0 @ mid @ post0)"
          "frames_free (old_text P) ((Ins v ks # pre, w, post) # C')"
          by (simp_all add: frames_free_def no_hit_Cons_Ins)
        with d(3,4,5) show ?thesis by blast
      qed
    qed
  qed
next
  case (4 P cid clk v ks "is")
  show ?case
  proof (cases "subst_items P cid clk ks")
    case (Inl e)
    with "4.prems" show ?thesis by simp
  next
    case (Inr o1)
    show ?thesis
    proof (cases o1)
      case (Some ks')
      with Inr "4.prems" have j: "js = Del v ks' # is" by simp
      from "4.IH"(1) Inr Some obtain C pre0 r' post0 k mid where
        d: "ks = plug C (pre0 @ R r' # post0)" "frames_free (old_text P) C"
           "no_hit (old_text P) pre0" "first_t (old_text P) (rKids r') = Some k"
           "edit_run P cid clk r' k = Inr mid" "ks' = plug C (pre0 @ mid @ post0)"
        by blast
      have "Del v ks # is = plug (([], InDel v, is) # C) (pre0 @ R r' # post0)"
        "js = plug (([], InDel v, is) # C) (pre0 @ mid @ post0)"
        "frames_free (old_text P) (([], InDel v, is) # C)"
        using d j by (simp_all add: frames_free_def no_hit_Nil)
      with d(3,4,5) show ?thesis by blast
    next
      case None
      with Inr have nk: "no_hit (old_text P) ks"
        using subst_items_no_hit [of P cid clk ks] by simp
      from None Inr "4.prems" obtain is' where
        i: "subst_items P cid clk is = Inr (Some is')" "js = Del v ks # is'"
        by (auto split: sum.splits option.splits)
      from "4.IH"(2) Inr None i(1) obtain C pre0 r' post0 k mid where
        d: "is = plug C (pre0 @ R r' # post0)" "frames_free (old_text P) C"
           "no_hit (old_text P) pre0" "first_t (old_text P) (rKids r') = Some k"
           "edit_run P cid clk r' k = Inr mid" "is' = plug C (pre0 @ mid @ post0)"
        by blast
      show ?thesis
      proof (cases C)
        case Nil
        with d i(2) nk have "Del v ks # is = plug [] ((Del v ks # pre0) @ R r' # post0)"
          "js = plug [] ((Del v ks # pre0) @ mid @ post0)"
          "no_hit (old_text P) (Del v ks # pre0)"
          by (simp_all add: no_hit_Cons_Del)
        with d(4,5) show ?thesis
          using frames_free_Nil [of "old_text P"] by blast
      next
        case (Cons f C')
        obtain pre w post where f: "f = (pre, w, post)" by (cases f) auto
        with Cons d i(2) nk have
          "Del v ks # is = plug ((Del v ks # pre, w, post) # C') (pre0 @ R r' # post0)"
          "js = plug ((Del v ks # pre, w, post) # C') (pre0 @ mid @ post0)"
          "frames_free (old_text P) ((Del v ks # pre, w, post) # C')"
          by (simp_all add: frames_free_def no_hit_Cons_Del)
        with d(3,4,5) show ?thesis by blast
      qed
    qed
  qed
qed

section \<open>Locating and splitting a run\<close>

lemma render_append_text:
  "concat (map render (append_text bfr s)) = bfr @ crlf s"
  by (induction s arbitrary: bfr) (auto simp: flush_def render_def crlf_def)

lemma run_text_set_text: "run_text (set_text r s) = crlf s"
  by (simp add: run_text_def set_text_def render_append_text)

lemma run_text_add_run: "run_text (set_style sty (add_run s) st) = crlf s"
  by (simp add: run_text_def set_style_def add_run_def set_text_def new_run_def
      render_append_text crlf_def)

lemma crlf_append: "crlf (a @ b) = crlf a @ crlf b"
  by (simp add: crlf_def)

lemma crlf_id: "CHR 0x0D \<notin> set s \<Longrightarrow> crlf s = s"
  by (induction s) (auto simp: crlf_def)

lemma add_run_empty: "add_run [] = new_run []"
  by (simp add: add_run_def)

lemma set_text_empty: "set_text r [] = r\<lparr>rKids := []\<rparr>"
  by (simp add: set_text_def flush_def)

lemma find_run_Some:
  "find_run target kids = Some i \<Longrightarrow>
   i < length kids \<and> (\<exists>run. kids ! i = R run \<and> contains target (run_text run))"
  by (induction target kids arbitrary: i rule: find_run.induct) (auto split: if_splits)

lemma locate_Some:
  "locate target doc = Some (j, i) \<Longrightarrow>
   j < length doc \<and> find_run target (pKids (doc ! j)) = Some i
   \<and> contains target (para_text (doc ! j))"
proof (induction doc arbitrary: j)
  case Nil
  then show ?case by simp
next
  case (Cons p ps)
  show ?case
  proof (cases "contains target (para_text p) \<and> find_run target (pKids p) \<noteq> None")
    case True
    with Cons.prems show ?thesis by auto
  next
    case False
    with Cons.prems obtain j' where "locate target ps = Some (j', i)" "j = Suc j'"
      by (auto split: if_splits option.splits)
    with Cons.IH [of j'] show ?thesis by simp
  qed
qed

lemma split_run_at:
  assumes "target \<noteq> []" and "kids ! i = R run"
    and "find_sub target (run_text run) = Some n"
  shows "split_run sty target kids i =
     Inr (take i kids @
          [R (set_text run (take n (run_text run))),
           R (set_style sty (add_run target) (get_style sty run))] @
          (if drop (n + length target) (run_text run) \<noteq> []
           then [R (set_style sty (add_run (drop (n + length target) (run_text run)))
                     (get_style sty run))]
           else []) @
          drop (Suc i) kids)"
  using assms by (simp add: split_run_def partition_str_def)

lemma find_run_split:
  assumes "target \<noteq> []" and "find_run target kids = Some i"
  shows "\<exists>run n. i < length kids \<and> kids ! i = R run
     \<and> find_sub target (run_text run) = Some n
     \<and> split_run sty target kids i =
        Inr (take i kids @
          [R (set_text run (take n (run_text run))),
           R (set_style sty (add_run target) (get_style sty run))] @
          (if drop (n + length target) (run_text run) \<noteq> []
           then [R (set_style sty (add_run (drop (n + length target) (run_text run)))
                     (get_style sty run))]
           else []) @
          drop (Suc i) kids)"
proof -
  from find_run_Some [OF assms(2)] obtain run where
    r: "i < length kids" "kids ! i = R run" "contains target (run_text run)" by blast
  from r(3) obtain n where n: "find_sub target (run_text run) = Some n"
    by (auto simp: contains_def)
  from split_run_at [OF assms(1) r(2) n] r n show ?thesis by blast
qed

lemma find_sub_self: "s \<noteq> [] \<Longrightarrow> find_sub s s = Some 0"
  by (cases s) simp_all

lemma split_keeps_text:
  assumes "target \<noteq> []" and "find_run target kids = Some i"
  shows "\<exists>run bef aft r0 tr ar. kids ! i = R run \<and> run_text run = bef @ target @ aft
     \<and> split_run sty target kids i =
         Inr (take i kids @ [R r0, R tr] @ (if aft \<noteq> [] then [R ar] else []) @
              drop (Suc i) kids)
     \<and> r0 = set_text run bef \<and> rStyle r0 = rStyle run \<and> rFmt r0 = rFmt run
     \<and> run_text r0 = crlf bef \<and> run_text tr = crlf target \<and> run_text ar = crlf aft
     \<and> crlf bef @ crlf target @ crlf aft = crlf (run_text run)"
proof -
  from find_run_split [OF assms, of sty] obtain run n where
    r: "kids ! i = R run" "find_sub target (run_text run) = Some n"
    and sp: "split_run sty target kids i =
        Inr (take i kids @
          [R (set_text run (take n (run_text run))),
           R (set_style sty (add_run target) (get_style sty run))] @
          (if drop (n + length target) (run_text run) \<noteq> []
           then [R (set_style sty (add_run (drop (n + length target) (run_text run)))
                     (get_style sty run))]
           else []) @
          drop (Suc i) kids)"
    by blast
  define bef where "bef = take n (run_text run)"
  define aft where "aft = drop (n + length target) (run_text run)"
  from find_sub_Some [OF r(2)] have t: "run_text run = bef @ target @ aft"
    by (simp add: bef_def aft_def)
  have c: "crlf bef @ crlf target @ crlf aft = crlf (run_text run)"
    by (simp add: t crlf_append)
  have "split_run sty target kids i =
         Inr (take i kids @
              [R (set_text run bef), R (set_style sty (add_run target) (get_style sty run))] @
              (if aft \<noteq> [] then [R (set_style sty (add_run aft) (get_style sty run))] else []) @
              drop (Suc i) kids)"
    unfolding sp bef_def aft_def ..
  with r(1) t c show ?thesis
    by (rule_tac x = run in exI, rule_tac x = bef in exI, rule_tac x = aft in exI,
        rule_tac x = "set_text run bef" in exI,
        rule_tac x = "set_style sty (add_run target) (get_style sty run)" in exI,
        rule_tac x = "set_style sty (add_run aft) (get_style sty run)" in exI)
       (simp add: run_text_set_text [unfolded set_text_def] run_text_add_run set_text_def)
qed

section \<open>The anchor, the save and the reload\<close>

lemma split_and_anchor_same:
  assumes "target \<noteq> []" and "locate target doc = Some (j, i)"
  shows "\<exists>kids run. split_run sty target (pKids (doc ! j)) i = Inr kids
     \<and> pKids (doc ! j) ! i = R run
     \<and> i + 1 < length kids
     \<and> kids ! (i + 1) = R (set_style sty (add_run target) (get_style sty run))
     \<and> j < length doc
     \<and> split_and_anchor sty False target doc j i =
         Inr (doc[j := (doc ! j)\<lparr>pKids :=
                take (i + 2) kids @ [R (new_run [])] @ drop (i + 2) kids\<rparr>], j, i + 2)"
proof -
  from locate_Some [OF assms(2)] have j: "j < length doc"
    and f: "find_run target (pKids (doc ! j)) = Some i" by simp_all
  from find_run_split [OF assms(1) f, of sty] obtain run n where
    i: "i < length (pKids (doc ! j))" and r: "pKids (doc ! j) ! i = R run"
    and sp: "split_run sty target (pKids (doc ! j)) i =
        Inr (take i (pKids (doc ! j)) @
          [R (set_text run (take n (run_text run))),
           R (set_style sty (add_run target) (get_style sty run))] @
          (if drop (n + length target) (run_text run) \<noteq> []
           then [R (set_style sty (add_run (drop (n + length target) (run_text run)))
                     (get_style sty run))]
           else []) @
          drop (Suc i) (pKids (doc ! j)))"
    by blast
  define kids where "kids = take i (pKids (doc ! j)) @
          [R (set_text run (take n (run_text run))),
           R (set_style sty (add_run target) (get_style sty run))] @
          (if drop (n + length target) (run_text run) \<noteq> []
           then [R (set_style sty (add_run (drop (n + length target) (run_text run)))
                     (get_style sty run))]
           else []) @
          drop (Suc i) (pKids (doc ! j))"
  have l: "length (take i (pKids (doc ! j))) = i"
    using i by simp
  have k1: "kids ! (i + 1) = R (set_style sty (add_run target) (get_style sty run))"
    unfolding kids_def using l by (simp add: nth_append)
  have k2: "i + 1 < length kids"
    unfolding kids_def using l by simp
  have sp': "split_run sty target (pKids (doc ! j)) i = Inr kids"
    unfolding kids_def by (rule sp)
  have "split_and_anchor sty False target doc j i =
         Inr (doc[j := (doc ! j)\<lparr>pKids :=
                take (i + 2) kids @ [R (new_run [])] @ drop (i + 2) kids\<rparr>], j, i + 2)"
    by (simp add: split_and_anchor_def sp' add_run_empty)
  with sp' k1 k2 j r show ?thesis
    by blast
qed

lemma split_and_anchor_new_paragraph:
  assumes "target \<noteq> []" and "locate target doc = Some (j, i)"
  shows "split_and_anchor sty True target doc j i = Inl AttributeError"
proof -
  from split_and_anchor_same [OF assms, of sty] obtain kids where
    "split_run sty target (pKids (doc ! j)) i = Inr kids" by blast
  then show ?thesis
    by (simp add: split_and_anchor_def insert_paragraph_after_def)
qed





lemma add_comment_to_paragraph_new_paragraph:
  assumes "target \<noteq> []" and "strip target \<noteq> []"
    and "files s (docx_path s) = Some doc"
    and "locate target doc = Some (j, i)"
  shows "add_comment_to_paragraph sty add_comment s target comment_text reviewer initials True
      = (Inl AttributeError, s)"
  using assms split_and_anchor_new_paragraph [OF assms(1,4), of sty]
  by (simp add: add_comment_to_paragraph_def)



section \<open>Claim C9: a call whose old text is nowhere\<close>

text \<open>
  C9, first half, as the code has it: when \<^verbatim>\<open>old_text\<close> occurs in the text of no paragraph,
  \<^verbatim>\<open>modify_text_in_doc\<close> changes nothing: the tree, the id counter, the clock and every
  other field of the session are what they were, no id is handed out, and the call
  returns \<^verbatim>\<open>None\<close>.
\<close>

theorem modify_absent_no_mutation:
  assumes "\<not> list_ex (\<lambda>p. contains old (get_full_text p)) (doc_tree s)"
  shows "modify_text_in_doc clk_now s old new full auth = (Inr PyNone, [], s)"
proof -
  have "modify_paras \<lparr>now = clk_now, old_text = old, new_text = new, author = auth\<rparr>
          (id_counter s) (clock s) (doc_tree s)
        = (None, [], doc_tree s, id_counter s, clock s)"
    using assms by (intro modify_paras_absent) (simp add: list_ex_iff)
  then show ?thesis
    by (simp add: modify_text_in_doc_def)
qed

theorem modify_absent_no_mutation_witness:
  "\<not> list_ex (\<lambda>p. contains ''zzz'' (get_full_text p)) (doc_tree (ex_session [ex_para ''abc'']))
   \<and> modify_text_in_doc ex_now (ex_session [ex_para ''abc'']) ''zzz'' ''N'' [] ''A''
       = (Inr PyNone, [], ex_session [ex_para ''abc''])"
proof -
  have h: "\<not> list_ex (\<lambda>p. contains ''zzz'' (get_full_text p))
              (doc_tree (ex_session [ex_para ''abc'']))"
    by (simp add: ex_session_def ex_para_def new_run_def contains_def get_full_text_def
        t_text_def)
  from h modify_absent_no_mutation [OF h] show ?thesis
    by blast
qed

text \<open>
  C9, second half, fails: the call does not tell its caller that nothing was found. On
  the one paragraph \<^verbatim>\<open>abc\<close>, the call with the absent \<^verbatim>\<open>zzz\<close> and the call with the present
  \<^verbatim>\<open>abc\<close> both return \<^verbatim>\<open>None\<close>, and the first prints nothing.
\<close>

theorem modify_absent_not_reported:
  "fst (modify_text_in_doc ex_now (ex_session [ex_para ''abc'']) ''zzz'' ''N'' [] ''A'')
     = Inr PyNone
   \<and> fst (modify_text_in_doc ex_now (ex_session [ex_para ''abc'']) ''abc'' ''N'' [] ''A'')
     = Inr PyNone
   \<and> stdout (snd (snd (modify_text_in_doc ex_now (ex_session [ex_para ''abc''])
                          ''zzz'' ''N'' [] ''A'')))
     = stdout (ex_session [ex_para ''abc''])"
  by (simp add: modify_text_in_doc_def ex_session_def ex_para_def new_run_def contains_def
      edit_run_def partition_str_def t_text_def)

section \<open>Claim C3: the split of a run\<close>

text \<open>
  C3. Of the split done by \<^verbatim>\<open>add_comment_to_paragraph\<close>, lemma \<open>split_keeps_text\<close> above
  gives the text: the runs that stand in place of the run found hold \<^verbatim>\<open>before\<close>, the target
  and \<^verbatim>\<open>after\<close>, which joined are the text of the run, and the target run holds the target
  and nothing else (a carriage return is read back as a line feed). The formatting is not
  carried over as the source's comment \<^verbatim>\<open># keep original formatting\<close> announces: the first
  run is the original and keeps its \<^verbatim>\<open>w:rPr\<close>, but the target run and the run after it are
  new runs that receive \<^verbatim>\<open>run.style\<close>, the character style, only. On a bold run with the
  style \<^verbatim>\<open>Strong\<close> they come out with the style and without the bold.
\<close>

theorem split_drops_direct_formatting:
  "split_run ex_styles ''INTRODUCTION'' (pKids (bold_para ''See INTRODUCTION for details.'')) 0 =
     Inr [R \<lparr>rStyle = Some ''Strong'', rFmt = [''b''], rKids = [T ''See '']\<rparr>,
          R \<lparr>rStyle = Some ''Strong'', rFmt = [], rKids = [T ''INTRODUCTION'']\<rparr>,
          R \<lparr>rStyle = Some ''Strong'', rFmt = [], rKids = [T '' for details.'']\<rparr>]"
  by (simp add: split_run_def partition_str_def run_text_def render_def new_run_def
      set_text_def set_style_def get_style_def add_run_def bold_para_def ex_styles_def flush_def)

section \<open>Claim C4: a run that is the target\<close>

text \<open>
  C4, as the code has it. When the text of the run is the target, \<^verbatim>\<open>before\<close> and \<^verbatim>\<open>after\<close>
  are empty: \<^verbatim>\<open>run.text = before\<close> empties the original run, which stays where it is with
  its \<^verbatim>\<open>w:rPr\<close> and no text, and exactly one run is put right after it: a new run whose
  content is the target as the library writes a text into a run. No run for \<^verbatim>\<open>after\<close> is
  made, and no other child of the paragraph is touched. Nothing is said here of the
  formatting of the new run, which is the matter of C3.
\<close>

theorem split_of_exact_run:
  assumes "target \<noteq> []" and "i < length kids" and "kids ! i = R run"
    and "run_text run = target"
  shows "\<exists>tr. split_run sty target kids i =
           Inr (take i kids @ [R (run\<lparr>rKids := []\<rparr>), R tr] @ drop (Suc i) kids)
     \<and> run_text (run\<lparr>rKids := []\<rparr>) = []
     \<and> rKids tr = append_text [] target \<and> run_text tr = crlf target"
proof -
  have "find_sub target (run_text run) = Some 0"
    using assms(1,4) by (simp add: find_sub_self)
  from split_run_at [OF assms(1,3) this, of sty] assms(1,4)
  have "split_run sty target kids i =
      Inr (take i kids @
           [R (run\<lparr>rKids := []\<rparr>), R (set_style sty (add_run target) (get_style sty run))] @
           drop (Suc i) kids)"
    by (simp add: set_text_empty)
  moreover have "rKids (set_style sty (add_run target) (get_style sty run)) = append_text [] target"
    using assms(1) by (simp add: set_style_def add_run_def set_text_def new_run_def)
  moreover have "run_text (set_style sty (add_run target) (get_style sty run)) = crlf target"
    by (rule run_text_add_run)
  moreover have "run_text (run\<lparr>rKids := []\<rparr>) = []"
    by (simp add: run_text_def)
  ultimately show ?thesis by blast
qed

text \<open>A bold run \<^verbatim>\<open>A\<close>, tab, \<^verbatim>\<open>B\<close> after another run, and that text as the target.\<close>

theorem split_of_exact_run_witness:
  "run_text \<lparr>rStyle = Some ''Strong'', rFmt = [''b''], rKids = [T ''A'', Tab, T ''B'']\<rparr>
     = [CHR ''A'', CHR 0x09, CHR ''B'']
   \<and> (\<exists>tr. split_run ex_styles [CHR ''A'', CHR 0x09, CHR ''B'']
          [R (new_run [T ''x'']),
           R \<lparr>rStyle = Some ''Strong'', rFmt = [''b''], rKids = [T ''A'', Tab, T ''B'']\<rparr>] 1
        = Inr [R (new_run [T ''x'']),
               R \<lparr>rStyle = Some ''Strong'', rFmt = [''b''], rKids = []\<rparr>, R tr]
      \<and> rKids tr = [T ''A'', Tab, T ''B''])"
proof -
  let ?run = "\<lparr>rStyle = Some ''Strong'', rFmt = [''b''], rKids = [T ''A'', Tab, T ''B'']\<rparr>"
  let ?kids = "[R (new_run [T ''x'']), R ?run]"
  let ?t = "[CHR ''A'', CHR 0x09, CHR ''B'']"
  have a: "?t \<noteq> []" by simp
  have b: "1 < length ?kids" by simp
  have c: "?kids ! 1 = R ?run" by simp
  have d: "run_text ?run = ?t"
    by (simp add: run_text_def render_def)
  have e: "append_text [] ?t = [T ''A'', Tab, T ''B'']"
    by (simp add: flush_def)
  from split_of_exact_run [OF a b c d, of ex_styles] d e show ?thesis
    by auto
qed

text \<open>
  C4 as stated fails: the original run does not stay as the target run. After the split
  of the one run \<^verbatim>\<open>X\<close> on the target \<^verbatim>\<open>X\<close> the paragraph has two runs, and the first is empty.
\<close>

theorem split_of_exact_run_leaves_empty_run:
  "split_run ex_styles ''X'' [R (new_run [T ''X''])] 0
     = Inr [R (new_run []), R (new_run [T ''X''])]
   \<and> run_text (new_run []) = []"
  by (simp add: split_run_def partition_str_def run_text_def render_def new_run_def
      set_text_def set_style_def get_style_def add_run_def ex_styles_def flush_def)

section \<open>Claim C6: the anchor in the same paragraph\<close>

text \<open>
  C6, as the code has it, for \<^verbatim>\<open>new_paragraph = False\<close>. When the target is not empty and
  the loop finds it in the run with index \<open>i\<close> of the paragraph with index \<open>j\<close>, the split
  puts the target run at index \<open>i + 1\<close> of that paragraph, and
  \<^verbatim>\<open>anchor_run = para.add_run("")\<close> with \<^verbatim>\<open>target_run._r.addnext(anchor_run._r)\<close> puts exactly
  one more run into the same paragraph, at index \<open>i + 2\<close>, right after the target run,
  which stays at \<open>i + 1\<close>. That run is the anchor: it has no text, no child and no run
  properties of its own, neither a character style nor direct formatting. The other
  paragraphs of the document are as they were.
\<close>

theorem anchor_is_empty_unformatted_run:
  assumes "target \<noteq> []" and "locate target doc = Some (j, i)"
  shows "(\<exists>kids tr. split_run sty target (pKids (doc ! j)) i = Inr kids
       \<and> kids ! (i + 1) = R tr \<and> rKids tr = append_text [] target
       \<and> split_and_anchor sty False target doc j i =
           Inr (doc[j := (doc ! j)\<lparr>pKids :=
                  take (i + 2) kids @ [R (new_run [])] @ drop (i + 2) kids\<rparr>], j, i + 2)
       \<and> (take (i + 2) kids @ [R (new_run [])] @ drop (i + 2) kids) ! (i + 1) = R tr
       \<and> (take (i + 2) kids @ [R (new_run [])] @ drop (i + 2) kids) ! (i + 2) = R (new_run []))
     \<and> run_text (new_run []) = [] \<and> rKids (new_run []) = []
     \<and> rStyle (new_run []) = None \<and> rFmt (new_run []) = []"
proof -
  from split_and_anchor_same [OF assms, of sty] obtain kids run where
    sp: "split_run sty target (pKids (doc ! j)) i = Inr kids"
    and k: "i + 1 < length kids"
    and t: "kids ! (i + 1) = R (set_style sty (add_run target) (get_style sty run))"
    and sa: "split_and_anchor sty False target doc j i =
         Inr (doc[j := (doc ! j)\<lparr>pKids :=
                take (i + 2) kids @ [R (new_run [])] @ drop (i + 2) kids\<rparr>], j, i + 2)"
    by blast
  define tr where "tr = set_style sty (add_run target) (get_style sty run)"
  have c: "rKids tr = append_text [] target"
    using assms(1) by (simp add: tr_def set_style_def add_run_def set_text_def new_run_def)
  from k have l: "length (take (i + 2) kids) = i + 2" by simp
  have a1: "(take (i + 2) kids @ [R (new_run [])] @ drop (i + 2) kids) ! (i + 1) = R tr"
    using k t by (simp add: nth_append tr_def)
  have a2: "(take (i + 2) kids @ [R (new_run [])] @ drop (i + 2) kids) ! (i + 2) = R (new_run [])"
    using l by (metis nth_append_length append_Cons)
  have "run_text (new_run []) = [] \<and> rKids (new_run []) = []
     \<and> rStyle (new_run []) = None \<and> rFmt (new_run []) = []"
    by (simp add: run_text_def new_run_def)
  with sp t c sa a1 a2 show ?thesis
    unfolding tr_def [symmetric] by blast
qed

text \<open>The target \<^verbatim>\<open>INTRODUCTION\<close> in the second paragraph, inside a bold run with the style
  \<^verbatim>\<open>Strong\<close>: the anchor is the third of the four runs.\<close>

theorem anchor_is_empty_unformatted_run_witness:
  "locate ''INTRODUCTION'' [ex_para ''abc'', bold_para ''See INTRODUCTION for details.'']
     = Some (1, 0)
   \<and> split_and_anchor ex_styles False ''INTRODUCTION''
        [ex_para ''abc'', bold_para ''See INTRODUCTION for details.''] 1 0
     = Inr ([ex_para ''abc'',
             \<lparr>pAttrs = [(''rsidR'', ''00A1'')], pPr = Some ''Heading1'',
              pKids = [R \<lparr>rStyle = Some ''Strong'', rFmt = [''b''], rKids = [T ''See '']\<rparr>,
                       R \<lparr>rStyle = Some ''Strong'', rFmt = [], rKids = [T ''INTRODUCTION'']\<rparr>,
                       R (new_run []),
                       R \<lparr>rStyle = Some ''Strong'', rFmt = [],
                          rKids = [T '' for details.'']\<rparr>]\<rparr>], 1, 2)"
proof -
  let ?doc = "[ex_para ''abc'', bold_para ''See INTRODUCTION for details.'']"
  have a: "''INTRODUCTION'' \<noteq> []" by simp
  have b: "locate ''INTRODUCTION'' ?doc = Some (1, 0)"
    by (simp add: ex_para_def bold_para_def new_run_def para_text_def para_runs_def
        run_text_def render_def contains_def)
  have c: "split_run ex_styles ''INTRODUCTION'' (pKids (?doc ! 1)) 0 =
      Inr [R \<lparr>rStyle = Some ''Strong'', rFmt = [''b''], rKids = [T ''See '']\<rparr>,
           R \<lparr>rStyle = Some ''Strong'', rFmt = [], rKids = [T ''INTRODUCTION'']\<rparr>,
           R \<lparr>rStyle = Some ''Strong'', rFmt = [], rKids = [T '' for details.'']\<rparr>]"
    by (simp add: split_run_def partition_str_def run_text_def render_def new_run_def
      set_text_def set_style_def get_style_def add_run_def bold_para_def ex_styles_def
      flush_def)
  from anchor_is_empty_unformatted_run [OF a b, of ex_styles] c b show ?thesis
    by (auto simp: bold_para_def)
qed

text \<open>
  C6 as stated fails: the anchor run does not take over the formatting of the target run.
  After the split of the bold run \<^verbatim>\<open>INTRODUCTION\<close> with the style \<^verbatim>\<open>Strong\<close>, the target run
  has that style and the anchor run after it has none.
\<close>

theorem anchor_run_has_no_formatting:
  "split_and_anchor ex_styles False ''INTRODUCTION'' [bold_para ''INTRODUCTION''] 0 0
     = Inr ([\<lparr>pAttrs = [(''rsidR'', ''00A1'')], pPr = Some ''Heading1'',
              pKids = [R \<lparr>rStyle = Some ''Strong'', rFmt = [''b''], rKids = []\<rparr>,
                       R \<lparr>rStyle = Some ''Strong'', rFmt = [], rKids = [T ''INTRODUCTION'']\<rparr>,
                       R \<lparr>rStyle = None, rFmt = [], rKids = []\<rparr>]\<rparr>], 0, 2)"
  by (simp add: split_and_anchor_def split_run_def partition_str_def run_text_def render_def
      new_run_def set_text_def set_style_def get_style_def add_run_def bold_para_def
      ex_styles_def flush_def)

section \<open>Claim C7: the anchor in a new paragraph\<close>

text \<open>
  C7 fails in the code. With \<^verbatim>\<open>new_paragraph = True\<close> the helper
  \<^verbatim>\<open>_insert_paragraph_after\<close> does place an emptied copy of the paragraph right after it
  (the copy keeps the XML attributes of \<^verbatim>\<open>w:p\<close> and loses \<^verbatim>\<open>w:pPr\<close> with the other children),
  but its \<^verbatim>\<open>return\<close> raises \<^verbatim>\<open>AttributeError\<close>: no run is added to the copy, no anchor is
  returned, nothing is saved, and the session is what it was. This is so when another
  paragraph follows the one found and when none does.
\<close>

theorem new_paragraph_raises_attribute_error:
  "add_comment_to_paragraph ex_styles ex_attach
      (ex_session [bold_para ''INTRODUCTION'', ex_para ''second''])
      ''INTRODUCTION'' ''Please clarify.'' ''Reviewer'' ''RV'' True
     = (Inl AttributeError, ex_session [bold_para ''INTRODUCTION'', ex_para ''second''])
   \<and> insert_paragraph_after [bold_para ''INTRODUCTION'', ex_para ''second''] 0
     = ([bold_para ''INTRODUCTION'',
         \<lparr>pAttrs = [(''rsidR'', ''00A1'')], pPr = None, pKids = []\<rparr>,
         ex_para ''second''], Inl AttributeError)
   \<and> add_comment_to_paragraph ex_styles ex_attach (ex_session [bold_para ''INTRODUCTION''])
      ''INTRODUCTION'' ''Please clarify.'' ''Reviewer'' ''RV'' True
     = (Inl AttributeError, ex_session [bold_para ''INTRODUCTION''])"
proof -
  have g: "''INTRODUCTION'' \<noteq> []" "strip ''INTRODUCTION'' \<noteq> []"
    by (simp_all add: strip_def isspace_def)
  have l: "locate ''INTRODUCTION'' [bold_para ''INTRODUCTION'', ex_para ''second''] = Some (0, 0)"
    "locate ''INTRODUCTION'' [bold_para ''INTRODUCTION''] = Some (0, 0)"
    by (simp_all add: bold_para_def para_text_def para_runs_def run_text_def render_def
        contains_def)
  have f: "files (ex_session d) (docx_path (ex_session d)) = Some d" for d
    by (simp add: ex_session_def)
  have "insert_paragraph_after [bold_para ''INTRODUCTION'', ex_para ''second''] 0
     = ([bold_para ''INTRODUCTION'',
         \<lparr>pAttrs = [(''rsidR'', ''00A1'')], pPr = None, pKids = []\<rparr>,
         ex_para ''second''], Inl AttributeError)"
    by (simp add: insert_paragraph_after_def bold_para_def)
  with add_comment_to_paragraph_new_paragraph [OF g f l(1)]
    add_comment_to_paragraph_new_paragraph [OF g f l(2)]
  show ?thesis by simp
qed

section \<open>Claim C10: a comment call after unsaved substitutions\<close>



section \<open>Claim C8: an empty old text or target\<close>

text \<open>
  What the two methods do with such an argument. \<^verbatim>\<open>add_comment_to_paragraph\<close> has a guard:
  for a target that is empty or all whitespace it prints that the comment is skipped and
  returns \<^verbatim>\<open>None\<close>, with nothing else changed. \<^verbatim>\<open>modify_text_in_doc\<close> has none: with an
  empty \<^verbatim>\<open>old_text\<close> the test \<^verbatim>\<open>old_text not in t.text\<close> is false for every text node with a
  text, so the first of them reaches \<^verbatim>\<open>t.text.partition('')\<close>, which raises \<^verbatim>\<open>ValueError\<close>
  before anything is changed; when no text node has a text the loops end and the call
  returns \<^verbatim>\<open>None\<close>.
\<close>

lemma add_comment_to_paragraph_blank:
  "target = [] \<or> strip target = [] \<Longrightarrow>
   add_comment_to_paragraph sty add_comment s target comment_text reviewer initials
       new_paragraph
     = (Inr PyNone, s\<lparr>stdout := stdout s @ [Skipping_comment_empty]\<rparr>)"
  by (simp add: add_comment_to_paragraph_def)

lemma strip_blank:
  assumes "list_all isspace target"
  shows "strip target = []"
proof -
  from assms have a: "dropWhile isspace target = []"
    by (simp add: dropWhile_eq_Nil_conv list_all_iff)
  show ?thesis
    unfolding strip_def a by simp
qed

lemma modify_text_in_doc_empty_old:
  "modify_text_in_doc clk_now s [] new full auth =
     ((if list_ex (has_match []) (doc_tree s) then Inl ValueError else Inr PyNone), [], s)"
  by (simp add: modify_text_in_doc_def modify_paras_empty)

text \<open>
  C8 fails in the code for the substitution, which lacks the guard that the comment method
  has. On a document whose only text node is empty, the call with an empty \<^verbatim>\<open>old_text\<close>
  does not fail: it returns \<^verbatim>\<open>None\<close>, as a call that found nothing does.
\<close>

theorem empty_old_text_without_text_returns:
  "modify_text_in_doc ex_now (ex_session [ex_para []]) [] ''Y'' [] ''Fuad''
     = (Inr PyNone, [], ex_session [ex_para []])"
  by (simp add: modify_text_in_doc_def ex_session_def ex_para_def new_run_def)

section \<open>Claim C5: change ids\<close>





end
